theory Spec2Isabelle
  imports Main "HOL-Library.Word" "HOL-Library.Code_Target_Numeral"
begin

unbundle bit_operations_syntax

section \<open>Bytes, exceptions and the wire codec\<close>

text \<open>
  Python \<open>bytes\<close> values are lists of 8-bit words; Python integers are unbounded, so the
  unpacked header fields are \<open>nat\<close> (and \<open>int\<close> for the signed encoding field).
\<close>

type_synonym byte = "8 word"
type_synonym bytes = "byte list"

text \<open>
  Every \<open>raise\<close> of the two scripts, and the exceptions of the library calls they make,
  as values. The scripts raise plain \<open>Exception\<close>/\<open>ValueError\<close> with a message; the
  constructor names follow the message:
  \<^item> \<open>ConnectionRejected m\<close>: \<open>Exception(f"VNC error: {err_msg}")\<close>;
  \<^item> \<open>UnsupportedSecurity ts\<close>: \<open>Exception(f"No supported security type ...")\<close>;
  \<^item> \<open>AuthenticationFailed c\<close>: \<open>Exception("VNC authentication failed ...")\<close>, with the
    result code where the message carries it (the standalone tool) and \<open>None\<close> where it
    does not (the connection class);
  \<^item> \<open>ConnectionClosed\<close>: \<open>Exception("Connection closed")\<close> of \<open>recv_exact\<close>;
  \<^item> \<open>StructError\<close>: \<open>struct.error\<close>, raised by \<open>struct.unpack\<close> on a buffer of the
    wrong size;
  \<^item> \<open>CipherError\<close>: whatever the DES library raises (\<open>ImportError\<close>, \<open>ValueError\<close>);
  \<^item> \<open>UnknownKey n\<close>: \<open>ValueError(f"Unknown key: {key_name}")\<close>;
  \<^item> \<open>UnknownKeyInCombo p\<close>: \<open>ValueError(f"Unknown key in combo: {part}")\<close>.
\<close>

datatype error =
    ConnectionRejected bytes
  | UnsupportedSecurity bytes
  | AuthenticationFailed "nat option"
  | ConnectionClosed
  | StructError
  | CipherError
  | UnknownKey "nat list"
  | UnknownKeyInCombo "nat list"

text \<open>Big-endian value of a byte string (\<open>int.from_bytes(d, 'big')\<close>).\<close>

definition be_nat :: "bytes \<Rightarrow> nat" where
  "be_nat d = foldl (\<lambda>acc b. acc * 256 + unat b) 0 d"

text \<open>\<open>struct.unpack\<close> for the formats the scripts use; a buffer of another size raises.\<close>

definition unpack_B :: "bytes \<Rightarrow> error + nat" where
  "unpack_B d = (if length d = 1 then Inr (be_nat d) else Inl StructError)"

definition unpack_H :: "bytes \<Rightarrow> error + nat" where
  "unpack_H d = (if length d = 2 then Inr (be_nat d) else Inl StructError)"

definition unpack_I :: "bytes \<Rightarrow> error + nat" where
  "unpack_I d = (if length d = 4 then Inr (be_nat d) else Inl StructError)"

definition signed32 :: "nat \<Rightarrow> int" where
  "signed32 n = (if n < 2 ^ 31 then int n else int n - 2 ^ 32)"

text \<open>\<open>struct.unpack('>HHHHi', d)\<close>: four unsigned 16-bit fields and a signed 32-bit one.\<close>

definition unpack_HHHHi :: "bytes \<Rightarrow> error + (nat \<times> nat \<times> nat \<times> nat \<times> int)" where
  "unpack_HHHHi d =
     (if length d = 12
      then Inr (be_nat (take 2 d), be_nat (take 2 (drop 2 d)), be_nat (take 2 (drop 4 d)),
                be_nat (take 2 (drop 6 d)), signed32 (be_nat (take 4 (drop 8 d))))
      else Inl StructError)"

text \<open>\<open>struct.pack\<close> for the same formats (the values are in range wherever they are used).\<close>

definition pack_H :: "nat \<Rightarrow> bytes" where
  "pack_H n = [of_nat (n div 256), of_nat (n mod 256)]"

definition pack_I :: "nat \<Rightarrow> bytes" where
  "pack_I n = [of_nat (n div 16777216), of_nat (n div 65536 mod 256),
               of_nat (n div 256 mod 256), of_nat (n mod 256)]"

definition pack_i :: "int \<Rightarrow> bytes" where
  "pack_i v = pack_I (nat (v mod 2 ^ 32))"

section \<open>Key derivation and the VNCAuth response\<close>

text \<open>
  \<open>'{:08b}'.format(b)\<close>: the eight binary digits of a byte, most significant first.
\<close>

definition format_08b :: "byte \<Rightarrow> string" where
  "format_08b b = map (\<lambda>i. if bit b (7 - i) then CHR ''1'' else CHR ''0'') [0..<8]"

text \<open>\<open>int(s, 2)\<close> on a string of binary digits.\<close>

definition int_base2 :: "string \<Rightarrow> nat" where
  "int_base2 s = foldl (\<lambda>acc c. 2 * acc + (if c = CHR ''1'' then 1 else 0)) 0 s"

text \<open>\<open>int('{:08b}'.format(b)[::-1], 2)\<close>, stored into a \<open>bytes\<close> object.\<close>

definition reverse_bits :: "byte \<Rightarrow> byte" where
  "reverse_bits b = of_nat (int_base2 (rev (format_08b b)))"

definition reversed_key :: "bytes \<Rightarrow> bytes" where
  "reversed_key key_bytes = map reverse_bits key_bytes"

text \<open>
  \<open>key = (password.encode('utf-8') + b'\x00' * 8)[:8]\<close>. The argument is the password as
  encoded by \<open>str.encode\<close>.
\<close>

definition vnc_key :: "bytes \<Rightarrow> bytes" where
  "vnc_key password = take 8 (password @ replicate 8 0)"

text \<open>
  The DES key that reaches the cipher: \<open>vnc_key\<close> at the call site, \<open>reversed_key\<close> inside
  \<open>vnc_des_encrypt\<close>.
\<close>

definition deriveKey :: "bytes \<Rightarrow> bytes" where
  "deriveKey password = reversed_key (vnc_key password)"

text \<open>
  \<open>vnc_des_encrypt(key_bytes, challenge)\<close>. The DES primitive belongs to an external
  library: \<open>cipher k d\<close> stands for \<open>DES.new(k, DES.MODE_ECB).encrypt(d)\<close> and may raise.
\<close>

definition vnc_des_encrypt ::
  "(bytes \<Rightarrow> bytes \<Rightarrow> error + bytes) \<Rightarrow> bytes \<Rightarrow> bytes \<Rightarrow> error + bytes" where
  "vnc_des_encrypt cipher key_bytes challenge = cipher (reversed_key key_bytes) challenge"

text \<open>
  \<open>response = vnc_des_encrypt(key, challenge[:8]) + vnc_des_encrypt(key, challenge[8:16])\<close>
\<close>

definition auth_response ::
  "(bytes \<Rightarrow> bytes \<Rightarrow> error + bytes) \<Rightarrow> bytes \<Rightarrow> bytes \<Rightarrow> error + bytes" where
  "auth_response cipher password challenge =
     (let key = vnc_key password in
      case vnc_des_encrypt cipher key (take 8 challenge) of
        Inl e \<Rightarrow> Inl e
      | Inr r1 \<Rightarrow>
          (case vnc_des_encrypt cipher key (take 8 (drop 8 challenge)) of
             Inl e \<Rightarrow> Inl e
           | Inr r2 \<Rightarrow> Inr (r1 @ r2)))"

text \<open>A stand-in block function of the cipher's shape, for evaluating concrete cases.\<close>

definition xor_cipher :: "bytes \<Rightarrow> bytes \<Rightarrow> error + bytes" where
  "xor_cipher k d =
     (if length d mod 8 = 0 then Inr (map (\<lambda>(a, b). a XOR b) (zip d (concat (replicate (length d div 8) k))))
      else Inl CipherError)"

section \<open>The transport\<close>

text \<open>
  The socket as the client sees it: the bytes still to arrive, in the segments in which
  the transport delivers them, and the messages written so far. \<open>sock.recv(n)\<close> returns at
  most \<open>n\<close> bytes of the first pending segment, and the empty string once the peer has
  closed the stream. \<open>sock.send(d)\<close> appends to the log of written messages. The 15 second
  timeout is not part of the model.
\<close>

record sock =
  inbuf :: "bytes list"
  outbuf :: "bytes list"

fun recv :: "nat \<Rightarrow> bytes list \<Rightarrow> bytes \<times> bytes list" where
  "recv n [] = ([], [])"
| "recv n (c # cs) =
     (if c = [] then recv n cs
      else (take n c, if drop n c = [] then cs else drop n c # cs))"

definition sock_recv :: "nat \<Rightarrow> sock \<Rightarrow> bytes \<times> sock" where
  "sock_recv n s = (case recv n (inbuf s) of (d, i) \<Rightarrow> (d, s\<lparr>inbuf := i\<rparr>))"

definition sock_send :: "bytes \<Rightarrow> sock \<Rightarrow> sock" where
  "sock_send d s = s\<lparr>outbuf := outbuf s @ [d]\<rparr>"

text \<open>
  \<open>recv_exact(n)\<close>, defined alike in both scripts:
  \<^verbatim>\<open>
    data = b''
    while len(data) < n:
        chunk = sock.recv(min(n - len(data), 65536))
        if not chunk: raise Exception("Connection closed")
        data += chunk
    return data
  \<close>
\<close>

function recv_exact_loop :: "nat \<Rightarrow> bytes \<Rightarrow> bytes list \<Rightarrow> error + (bytes \<times> bytes list)" where
  "recv_exact_loop n data s =
     (if length data < n
      then (case recv (min (n - length data) 65536) s of
              (chunk, s') \<Rightarrow>
                if chunk = [] then Inl ConnectionClosed
                else recv_exact_loop n (data @ chunk) s')
      else Inr (data, s))"
  by pat_completeness auto
termination
proof (relation "measure (\<lambda>(n, data, s). n - length data)")
  show "wf (measure (\<lambda>(n, data, s). n - length data))"
    by simp
next
  fix n :: nat and data chunk :: bytes and s s' :: "bytes list"
  assume "length data < n" and "chunk \<noteq> []"
  then show "((n, data @ chunk, s'), (n, data, s)) \<in> measure (\<lambda>(n, data, s). n - length data)"
    by (cases chunk) auto
qed

definition recv_exact :: "nat \<Rightarrow> bytes list \<Rightarrow> error + (bytes \<times> bytes list)" where
  "recv_exact n s = recv_exact_loop n [] s"

section \<open>Handshake\<close>

record session =
  sess_width :: nat
  sess_height :: nat
  sess_name :: bytes

text \<open>\<open>b'RFB 003.008\n'\<close>\<close>

definition client_version :: bytes where
  "client_version = [0x52, 0x46, 0x42, 0x20, 0x30, 0x30, 0x33, 0x2E, 0x30, 0x30, 0x38, 0x0A]"

definition unpack_HH :: "bytes \<Rightarrow> error + (nat \<times> nat)" where
  "unpack_HH d =
     (if length d = 4 then Inr (be_nat (take 2 d), be_nat (drop 2 d)) else Inl StructError)"

text \<open>
  \<open>struct.unpack\<close> of fields whose values the handshake reads and never uses
  (\<open>'BBBB'\<close>, \<open>'>HHH'\<close>, \<open>'BBB'\<close>): only the size check matters.
\<close>

definition unpack_sized :: "nat \<Rightarrow> bytes \<Rightarrow> error + bytes" where
  "unpack_sized k d = (if length d = k then Inr d else Inl StructError)"

text \<open>Python's \<open>xs[a:b]\<close> for \<open>0 \<le> a \<le> b\<close>.\<close>

definition py_slice :: "'a list \<Rightarrow> nat \<Rightarrow> nat \<Rightarrow> 'a list" where
  "py_slice xs a b = take (b - a) (drop a xs)"

text \<open>
  \<open>VNCConnection.connect\<close> from the client-init step on (the code after the
  security \<open>if\<close>/\<open>elif\<close>/\<open>else\<close>). The name is kept as received; its lenient decoding is
  the library's.
\<close>

definition connect_init :: "sock \<Rightarrow> (error + session) \<times> sock" where
  "connect_init s0 =
     (let s1 = sock_send [1] s0 in
      case sock_recv 24 s1 of (server_init, s2) \<Rightarrow>
      (case unpack_HH (py_slice server_init 0 4) of
         Inl e \<Rightarrow> (Inl e, s2)
       | Inr (w, h) \<Rightarrow>
          (case unpack_I (py_slice server_init 20 24) of
             Inl e \<Rightarrow> (Inl e, s2)
           | Inr name_len \<Rightarrow>
              (case sock_recv name_len s2 of (nm, s3) \<Rightarrow>
                 (Inr \<lparr>sess_width = w, sess_height = h, sess_name = nm\<rparr>, s3)))))"

text \<open>\<open>VNCConnection.connect\<close>, after the TCP connection is open.\<close>

definition connect ::
  "(bytes \<Rightarrow> bytes \<Rightarrow> error + bytes) \<Rightarrow> bytes \<Rightarrow> sock \<Rightarrow> (error + session) \<times> sock" where
  "connect cipher password s0 =
     (case sock_recv 12 s0 of (server_version, s1) \<Rightarrow>
      let s2 = sock_send client_version s1 in
      case sock_recv 1 s2 of (d, s3) \<Rightarrow>
      (case unpack_B d of
         Inl e \<Rightarrow> (Inl e, s3)
       | Inr num_types \<Rightarrow>
          if num_types = 0 then
            (case sock_recv 4 s3 of (d4, s4) \<Rightarrow>
             (case unpack_I d4 of
                Inl e \<Rightarrow> (Inl e, s4)
              | Inr err_len \<Rightarrow>
                 (case sock_recv err_len s4 of (err_msg, s5) \<Rightarrow>
                    (Inl (ConnectionRejected err_msg), s5))))
          else
            (case sock_recv num_types s3 of (security_types, s4) \<Rightarrow>
             if 2 \<in> set security_types then
               (let s5 = sock_send [2] s4 in
                case sock_recv 16 s5 of (challenge, s6) \<Rightarrow>
                (case auth_response cipher password challenge of
                   Inl e \<Rightarrow> (Inl e, s6)
                 | Inr response \<Rightarrow>
                    (let s7 = sock_send response s6 in
                     case sock_recv 4 s7 of (d4, s8) \<Rightarrow>
                     (case unpack_I d4 of
                        Inl e \<Rightarrow> (Inl e, s8)
                      | Inr auth_result \<Rightarrow>
                         if auth_result \<noteq> 0 then (Inl (AuthenticationFailed None), s8)
                         else connect_init s8))))
             else if 1 \<in> set security_types then connect_init (sock_send [1] s4)
             else (Inl (UnsupportedSecurity security_types), s4))))"

text \<open>
  \<open>capture_vnc_screenshot\<close>, steps 3 and 4 (client init, server init). The standalone
  tool also unpacks the server's pixel format, which it only logs.
\<close>

definition tool_init :: "sock \<Rightarrow> (error + session) \<times> sock" where
  "tool_init s0 =
     (let s1 = sock_send [1] s0 in
      case sock_recv 24 s1 of (server_init, s2) \<Rightarrow>
      (case unpack_HH (py_slice server_init 0 4) of
         Inl e \<Rightarrow> (Inl e, s2)
       | Inr (w, h) \<Rightarrow>
      (case unpack_sized 4 (py_slice server_init 4 8) of
         Inl e \<Rightarrow> (Inl e, s2)
       | Inr pf \<Rightarrow>
      (case unpack_sized 6 (py_slice server_init 8 14) of
         Inl e \<Rightarrow> (Inl e, s2)
       | Inr maxima \<Rightarrow>
      (case unpack_sized 3 (py_slice server_init 14 17) of
         Inl e \<Rightarrow> (Inl e, s2)
       | Inr shifts \<Rightarrow>
      (case unpack_I (py_slice server_init 20 24) of
         Inl e \<Rightarrow> (Inl e, s2)
       | Inr name_len \<Rightarrow>
          (case sock_recv name_len s2 of (nm, s3) \<Rightarrow>
             (Inr \<lparr>sess_width = w, sess_height = h, sess_name = nm\<rparr>, s3))))))))"

text \<open>\<open>capture_vnc_screenshot\<close>, steps 1 to 4, after the TCP connection is open.\<close>

definition tool_handshake ::
  "(bytes \<Rightarrow> bytes \<Rightarrow> error + bytes) \<Rightarrow> bytes \<Rightarrow> sock \<Rightarrow> (error + session) \<times> sock" where
  "tool_handshake cipher password s0 =
     (case sock_recv 12 s0 of (server_version, s1) \<Rightarrow>
      let s2 = sock_send client_version s1 in
      case sock_recv 1 s2 of (d, s3) \<Rightarrow>
      (case unpack_B d of
         Inl e \<Rightarrow> (Inl e, s3)
       | Inr num_types \<Rightarrow>
          if num_types = 0 then
            (case sock_recv 4 s3 of (d4, s4) \<Rightarrow>
             (case unpack_I d4 of
                Inl e \<Rightarrow> (Inl e, s4)
              | Inr err_len \<Rightarrow>
                 (case sock_recv err_len s4 of (err_msg, s5) \<Rightarrow>
                    (Inl (ConnectionRejected err_msg), s5))))
          else
            (case sock_recv num_types s3 of (security_types, s4) \<Rightarrow>
             if 2 \<in> set security_types then
               (let s5 = sock_send [2] s4 in
                case sock_recv 16 s5 of (challenge, s6) \<Rightarrow>
                (case auth_response cipher password challenge of
                   Inl e \<Rightarrow> (Inl e, s6)
                 | Inr response \<Rightarrow>
                    (let s7 = sock_send response s6 in
                     case sock_recv 4 s7 of (d4, s8) \<Rightarrow>
                     (case unpack_I d4 of
                        Inl e \<Rightarrow> (Inl e, s8)
                      | Inr auth_result \<Rightarrow>
                         if auth_result \<noteq> 0
                         then (Inl (AuthenticationFailed (Some auth_result)), s8)
                         else tool_init s8))))
             else if 1 \<in> set security_types then tool_init (sock_send [1] s4)
             else (Inl (UnsupportedSecurity security_types), s4))))"

section \<open>Framebuffer update receiver\<close>

text \<open>
  Python's slice assignment \<open>xs[a:b] = data\<close> on a \<open>bytearray\<close>, for \<open>0 \<le> a\<close> and
  \<open>0 \<le> b\<close>: both bounds are clamped to the length (and \<open>b\<close> to no less than \<open>a\<close>), and
  the slice is replaced by \<open>data\<close> whatever the two lengths are. Past the end of the array
  the data is appended.
\<close>

definition slice_assign :: "'a list \<Rightarrow> nat \<Rightarrow> nat \<Rightarrow> 'a list \<Rightarrow> 'a list" where
  "slice_assign xs a b data = take a xs @ data @ drop (max a b) xs"

text \<open>
  The row loop, the same text in both scripts (\<open>copy_row\<close> is its body):
  \<^verbatim>\<open>
    for row in range(rh):
        src_offset = row * rw * 4
        dst_offset = ((ry + row) * width + rx) * 4
        framebuffer[dst_offset:dst_offset + rw * 4] = rect_data[src_offset:src_offset + rw * 4]
  \<close>
\<close>

definition copy_row :: "nat \<Rightarrow> nat \<Rightarrow> nat \<Rightarrow> nat \<Rightarrow> bytes \<Rightarrow> nat \<Rightarrow> bytes \<Rightarrow> bytes" where
  "copy_row width rx ry rw rect_data row framebuffer =
     (let src_offset = row * rw * 4;
          dst_offset = ((ry + row) * width + rx) * 4
      in slice_assign framebuffer dst_offset (dst_offset + rw * 4)
           (py_slice rect_data src_offset (src_offset + rw * 4)))"

definition copy_rect :: "nat \<Rightarrow> bytes \<Rightarrow> nat \<Rightarrow> nat \<Rightarrow> nat \<Rightarrow> nat \<Rightarrow> bytes \<Rightarrow> bytes" where
  "copy_rect width framebuffer rx ry rw rh rect_data =
     fold (copy_row width rx ry rw rect_data) [0..<rh] framebuffer"

text \<open>
  The rectangle loop of \<open>capture_vnc_screenshot\<close> (the standalone tool): a rectangle of
  another encoding is logged and ends the loop (\<open>break\<close>).
\<close>

fun tool_rects :: "nat \<Rightarrow> nat \<Rightarrow> bytes \<Rightarrow> bytes list \<Rightarrow> error + (bytes \<times> bytes list)" where
  "tool_rects 0 width framebuffer s = Inr (framebuffer, s)"
| "tool_rects (Suc n) width framebuffer s =
     (case recv_exact 12 s of
        Inl e \<Rightarrow> Inl e
      | Inr (hdr, s1) \<Rightarrow>
      (case unpack_HHHHi hdr of
         Inl e \<Rightarrow> Inl e
       | Inr (rx, ry, rw, rh, encoding) \<Rightarrow>
          if encoding = 0 then
            (case recv_exact (rw * rh * 4) s1 of
               Inl e \<Rightarrow> Inl e
             | Inr (rect_data, s2) \<Rightarrow>
                 tool_rects n width (copy_rect width framebuffer rx ry rw rh rect_data) s2)
          else Inr (framebuffer, s1)))"

text \<open>
  The rectangle loop of \<open>VNCConnection.capture_screenshot\<close>: the \<open>if encoding == 0\<close> has
  no \<open>else\<close>, so the loop goes on to the next header.
\<close>

fun conn_rects :: "nat \<Rightarrow> nat \<Rightarrow> bytes \<Rightarrow> bytes list \<Rightarrow> error + (bytes \<times> bytes list)" where
  "conn_rects 0 width framebuffer s = Inr (framebuffer, s)"
| "conn_rects (Suc n) width framebuffer s =
     (case recv_exact 12 s of
        Inl e \<Rightarrow> Inl e
      | Inr (hdr, s1) \<Rightarrow>
      (case unpack_HHHHi hdr of
         Inl e \<Rightarrow> Inl e
       | Inr (rx, ry, rw, rh, encoding) \<Rightarrow>
          if encoding = 0 then
            (case recv_exact (rw * rh * 4) s1 of
               Inl e \<Rightarrow> Inl e
             | Inr (rect_data, s2) \<Rightarrow>
                 conn_rects n width (copy_rect width framebuffer rx ry rw rh rect_data) s2)
          else conn_rects n width framebuffer s1))"

text \<open>What \<open>recv_exact\<close> returns, needed for the termination of the receive loops.\<close>

lemma recv_concat: "recv n s = (d, s') \<Longrightarrow> concat s = d @ concat s'"
proof (induction s arbitrary: d s')
  case Nil
  then show ?case by simp
next
  case (Cons c cs)
  then show ?case
    by (cases "c = []") (auto split: if_splits)
qed

lemma length_recv: "length (fst (recv k t)) \<le> k"
  by (induction t) auto

lemma recv_exact_loop_concat:
  "recv_exact_loop n data s = Inr (d, s') \<Longrightarrow> length data \<le> n \<Longrightarrow>
   length d = n \<and> data @ concat s = d @ concat s'"
proof (induction n data s rule: recv_exact_loop.induct)
  case (1 n data s)
  show ?case
  proof (cases "length data < n")
    case False
    with "1.prems" show ?thesis by simp
  next
    case True
    obtain chunk s1 where r: "recv (min (n - length data) 65536) s = (chunk, s1)"
      by (cases "recv (min (n - length data) 65536) s")
    from recv_concat [OF r] have c: "concat s = chunk @ concat s1" .
    from r True "1.prems" have ne: "chunk \<noteq> []"
      and rec: "recv_exact_loop n (data @ chunk) s1 = Inr (d, s')"
      by (auto split: if_splits)
    from length_recv [of "min (n - length data) 65536" s] r
    have "length chunk \<le> n - length data"
      by simp
    with True have "length (data @ chunk) \<le> n"
      by simp
    from "1.IH" [OF True r [symmetric] ne rec this] c show ?thesis
      by simp
  qed
qed

lemma recv_exact_concat:
  "recv_exact n s = Inr (d, s') \<Longrightarrow> length d = n \<and> concat s = d @ concat s'"
  unfolding recv_exact_def using recv_exact_loop_concat [of n "[]" s d s'] by simp

lemma recv_exact_pending:
  "recv_exact n s = Inr (d, s') \<Longrightarrow> length (concat s') + n = length (concat s)"
  by (drule recv_exact_concat) simp

text \<open>
  The receive loop of the standalone tool (\<open>while True\<close>, step 8). Every round reads at
  least the message-type byte, so the loop ends on every finite stream.
\<close>

function tool_receive :: "nat \<Rightarrow> bytes \<Rightarrow> bytes list \<Rightarrow> error + (bytes \<times> bytes list)" where
  "tool_receive width framebuffer s =
     (case recv_exact 1 s of
        Inl e \<Rightarrow> Inl e
      | Inr (t, s1) \<Rightarrow>
      (case unpack_B t of
         Inl e \<Rightarrow> Inl e
       | Inr msg_type \<Rightarrow>
          if msg_type = 0 then
            (case recv_exact 1 s1 of
               Inl e \<Rightarrow> Inl e
             | Inr (pad, s2) \<Rightarrow>
            (case recv_exact 2 s2 of
               Inl e \<Rightarrow> Inl e
             | Inr (d, s3) \<Rightarrow>
            (case unpack_H d of
               Inl e \<Rightarrow> Inl e
             | Inr num_rects \<Rightarrow> tool_rects num_rects width framebuffer s3)))
          else if msg_type = 1 then
            (case recv_exact 1 s1 of
               Inl e \<Rightarrow> Inl e
             | Inr (pad, s2) \<Rightarrow>
            (case recv_exact 2 s2 of
               Inl e \<Rightarrow> Inl e
             | Inr (d1, s3) \<Rightarrow>
            (case unpack_H d1 of
               Inl e \<Rightarrow> Inl e
             | Inr first_color \<Rightarrow>
            (case recv_exact 2 s3 of
               Inl e \<Rightarrow> Inl e
             | Inr (d2, s4) \<Rightarrow>
            (case unpack_H d2 of
               Inl e \<Rightarrow> Inl e
             | Inr num_colors \<Rightarrow>
            (case recv_exact (num_colors * 6) s4 of
               Inl e \<Rightarrow> Inl e
             | Inr (rgb, s5) \<Rightarrow> tool_receive width framebuffer s5))))))
          else if msg_type = 2 then tool_receive width framebuffer s1
          else if msg_type = 3 then
            (case recv_exact 3 s1 of
               Inl e \<Rightarrow> Inl e
             | Inr (pad, s2) \<Rightarrow>
            (case recv_exact 4 s2 of
               Inl e \<Rightarrow> Inl e
             | Inr (d, s3) \<Rightarrow>
            (case unpack_I d of
               Inl e \<Rightarrow> Inl e
             | Inr text_len \<Rightarrow>
            (case recv_exact text_len s3 of
               Inl e \<Rightarrow> Inl e
             | Inr (txt, s4) \<Rightarrow> tool_receive width framebuffer s4))))
          else Inr (framebuffer, s1)))"
  by pat_completeness auto
termination
  apply (relation "measure (\<lambda>(width, framebuffer, s). length (concat s))")
     apply simp
    apply (auto dest!: recv_exact_pending)
  done

text \<open>The receive loop of \<open>VNCConnection.capture_screenshot\<close>.\<close>

function conn_receive :: "nat \<Rightarrow> bytes \<Rightarrow> bytes list \<Rightarrow> error + (bytes \<times> bytes list)" where
  "conn_receive width framebuffer s =
     (case recv_exact 1 s of
        Inl e \<Rightarrow> Inl e
      | Inr (t, s1) \<Rightarrow>
      (case unpack_B t of
         Inl e \<Rightarrow> Inl e
       | Inr msg_type \<Rightarrow>
          if msg_type = 0 then
            (case recv_exact 1 s1 of
               Inl e \<Rightarrow> Inl e
             | Inr (pad, s2) \<Rightarrow>
            (case recv_exact 2 s2 of
               Inl e \<Rightarrow> Inl e
             | Inr (d, s3) \<Rightarrow>
            (case unpack_H d of
               Inl e \<Rightarrow> Inl e
             | Inr num_rects \<Rightarrow> conn_rects num_rects width framebuffer s3)))
          else if msg_type = 1 then
            (case recv_exact 1 s1 of
               Inl e \<Rightarrow> Inl e
             | Inr (pad, s2) \<Rightarrow>
            (case recv_exact 2 s2 of
               Inl e \<Rightarrow> Inl e
             | Inr (d1, s3) \<Rightarrow>
            (case unpack_H d1 of
               Inl e \<Rightarrow> Inl e
             | Inr first \<Rightarrow>
            (case recv_exact 2 s3 of
               Inl e \<Rightarrow> Inl e
             | Inr (d2, s4) \<Rightarrow>
            (case unpack_H d2 of
               Inl e \<Rightarrow> Inl e
             | Inr num \<Rightarrow>
            (case recv_exact (num * 6) s4 of
               Inl e \<Rightarrow> Inl e
             | Inr (rgb, s5) \<Rightarrow> conn_receive width framebuffer s5))))))
          else if msg_type = 2 then conn_receive width framebuffer s1
          else if msg_type = 3 then
            (case recv_exact 3 s1 of
               Inl e \<Rightarrow> Inl e
             | Inr (pad, s2) \<Rightarrow>
            (case recv_exact 4 s2 of
               Inl e \<Rightarrow> Inl e
             | Inr (d, s3) \<Rightarrow>
            (case unpack_I d of
               Inl e \<Rightarrow> Inl e
             | Inr tl' \<Rightarrow>
            (case recv_exact tl' s3 of
               Inl e \<Rightarrow> Inl e
             | Inr (txt, s4) \<Rightarrow> conn_receive width framebuffer s4))))
          else Inr (framebuffer, s1)))"
  by pat_completeness auto
termination
  apply (relation "measure (\<lambda>(width, framebuffer, s). length (concat s))")
     apply simp
    apply (auto dest!: recv_exact_pending)
  done

text \<open>
  The three requests both captures write first: SetPixelFormat, SetEncodings (Raw only),
  FramebufferUpdateRequest for the whole display.
\<close>

definition set_pixel_format_msg :: bytes where
  "set_pixel_format_msg =
     [0, 0, 0, 0] @ [32, 24, 0, 1] @ pack_H 255 @ pack_H 255 @ pack_H 255 @ [16, 8, 0] @ [0, 0, 0]"

definition set_encodings_msg :: bytes where
  "set_encodings_msg = [2, 0] @ pack_H 1 @ pack_i 0"

definition update_request_msg :: "nat \<Rightarrow> nat \<Rightarrow> bytes" where
  "update_request_msg w h = [3, 0] @ pack_H 0 @ pack_H 0 @ pack_H w @ pack_H h"

text \<open>
  \<open>VNCConnection.capture_screenshot\<close> up to the pixel buffer it hands to the image
  library: the buffer and the socket afterwards.
\<close>

definition capture_screenshot :: "session \<Rightarrow> sock \<Rightarrow> error + (bytes \<times> sock)" where
  "capture_screenshot self s0 =
     (let s1 = sock_send set_pixel_format_msg s0;
          s2 = sock_send set_encodings_msg s1;
          s3 = sock_send (update_request_msg (sess_width self) (sess_height self)) s2;
          framebuffer = replicate (sess_width self * sess_height self * 4) 0
      in case conn_receive (sess_width self) framebuffer (inbuf s3) of
           Inl e \<Rightarrow> Inl e
         | Inr (fb, i) \<Rightarrow> Inr (fb, s3\<lparr>inbuf := i\<rparr>))"

text \<open>\<open>capture_vnc_screenshot\<close>, steps 5 to 8, for the negotiated width and height.\<close>

definition tool_capture :: "nat \<Rightarrow> nat \<Rightarrow> sock \<Rightarrow> error + (bytes \<times> sock)" where
  "tool_capture width height s0 =
     (let s1 = sock_send set_pixel_format_msg s0;
          s2 = sock_send set_encodings_msg s1;
          s3 = sock_send (update_request_msg width height) s2;
          framebuffer = replicate (width * height * 4) 0
      in case tool_receive width framebuffer (inbuf s3) of
           Inl e \<Rightarrow> Inl e
         | Inr (fb, i) \<Rightarrow> Inr (fb, s3\<lparr>inbuf := i\<rparr>))"

text \<open>\<open>capture_vnc_screenshot\<close>, from the open connection to the pixel buffer.\<close>

definition capture_vnc_screenshot ::
  "(bytes \<Rightarrow> bytes \<Rightarrow> error + bytes) \<Rightarrow> bytes \<Rightarrow> sock \<Rightarrow> error + (bytes \<times> sock)" where
  "capture_vnc_screenshot cipher password s0 =
     (case tool_handshake cipher password s0 of
        (Inl e, s1) \<Rightarrow> Inl e
      | (Inr sess, s1) \<Rightarrow> tool_capture (sess_width sess) (sess_height sess) s1)"

subsection \<open>The server's side of the wire format\<close>

text \<open>
  A rectangle as the server sends it, and the FramebufferUpdate message that carries a
  list of rectangles: what \<open>struct.unpack('>HHHHi', ...)\<close> and the reads around it take
  apart. A rectangle of another encoding is taken with the payload bytes the server put
  after its header.
\<close>

record rect =
  rect_x :: nat
  rect_y :: nat
  rect_w :: nat
  rect_h :: nat
  rect_encoding :: int
  rect_payload :: bytes

definition wire_header :: "rect \<Rightarrow> bytes" where
  "wire_header r =
     pack_H (rect_x r) @ pack_H (rect_y r) @ pack_H (rect_w r) @ pack_H (rect_h r)
     @ pack_i (rect_encoding r)"

definition wire_rect :: "rect \<Rightarrow> bytes" where
  "wire_rect r = wire_header r @ rect_payload r"

definition wire_update :: "rect list \<Rightarrow> bytes" where
  "wire_update rs = [0, 0] @ pack_H (length rs) @ concat (map wire_rect rs)"

definition is_raw :: "rect \<Rightarrow> bool" where
  "is_raw r \<longleftrightarrow> rect_encoding r = 0"

text \<open>
  The fields fit their wire types, and a Raw rectangle carries \<open>w * h * 4\<close> payload bytes.
\<close>

definition wf_rect :: "rect \<Rightarrow> bool" where
  "wf_rect r \<longleftrightarrow>
     rect_x r < 65536 \<and> rect_y r < 65536 \<and> rect_w r < 65536 \<and> rect_h r < 65536
     \<and> - (2 ^ 31) \<le> rect_encoding r \<and> rect_encoding r < 2 ^ 31
     \<and> (is_raw r \<longrightarrow> length (rect_payload r) = rect_w r * rect_h r * 4)"

text \<open>The rectangle lies within a display of the given width and height.\<close>

definition in_display :: "nat \<Rightarrow> nat \<Rightarrow> rect \<Rightarrow> bool" where
  "in_display width height r \<longleftrightarrow>
     rect_x r + rect_w r \<le> width \<and> rect_y r + rect_h r \<le> height"

text \<open>
  Every slice the row loop assigns for the rectangle ends within a buffer of \<open>n\<close> bytes:
  \<open>dst_offset + rw * 4 \<le> n\<close> for each row. A rectangle of width 0 assigns empty slices.
\<close>

definition rows_fit :: "nat \<Rightarrow> nat \<Rightarrow> rect \<Rightarrow> bool" where
  "rows_fit width n r \<longleftrightarrow>
     rect_w r = 0
     \<or> (\<forall>row\<in>{0..<rect_h r}. ((rect_y r + row) * width + rect_x r) * 4 + rect_w r * 4 \<le> n)"

text \<open>The row loop applied to a list of rectangles, in order.\<close>

definition composite :: "nat \<Rightarrow> rect list \<Rightarrow> bytes \<Rightarrow> bytes" where
  "composite width rs framebuffer =
     fold (\<lambda>r fb. copy_rect width fb (rect_x r) (rect_y r) (rect_w r) (rect_h r) (rect_payload r))
       rs framebuffer"

text \<open>
  Byte \<open>i\<close> of the buffer belongs to pixel \<open>i div 4\<close>, in column \<open>i div 4 mod width\<close> of row
  \<open>i div 4 div width\<close>. \<open>covers\<close>: the rectangle contains that pixel. \<open>rect_byte\<close>: the
  payload byte the rectangle declares for buffer position \<open>i\<close>. \<open>placed\<close>: the byte of
  the last rectangle of the list that covers position \<open>i\<close>, and the prior byte where none
  does.
\<close>

definition covers :: "nat \<Rightarrow> rect \<Rightarrow> nat \<Rightarrow> bool" where
  "covers width r i \<longleftrightarrow>
     rect_x r \<le> i div 4 mod width \<and> i div 4 mod width < rect_x r + rect_w r
     \<and> rect_y r \<le> i div 4 div width \<and> i div 4 div width < rect_y r + rect_h r"

definition rect_byte :: "nat \<Rightarrow> rect \<Rightarrow> nat \<Rightarrow> byte" where
  "rect_byte width r i =
     rect_payload r !
       (((i div 4 div width - rect_y r) * rect_w r + (i div 4 mod width - rect_x r)) * 4 + i mod 4)"

definition placed :: "nat \<Rightarrow> rect list \<Rightarrow> bytes \<Rightarrow> nat \<Rightarrow> byte" where
  "placed width rs framebuffer i =
     (case find (\<lambda>r. covers width r i) (rev rs) of
        None \<Rightarrow> framebuffer ! i
      | Some r \<Rightarrow> rect_byte width r i)"

text \<open>
  The other server messages the receive loops skip (SetColorMapEntries with its first
  colour and its RGB entries of 6 bytes each, Bell, ServerCutText), as the server sends
  them.
\<close>

datatype other_msg = SetColorMapEntries nat bytes | Bell | ServerCutText bytes

fun wire_other :: "other_msg \<Rightarrow> bytes" where
  "wire_other (SetColorMapEntries first rgb) =
     [1, 0] @ pack_H first @ pack_H (length rgb div 6) @ rgb"
| "wire_other Bell = [2]"
| "wire_other (ServerCutText txt) = [3, 0, 0, 0] @ pack_I (length txt) @ txt"

fun wf_other :: "other_msg \<Rightarrow> bool" where
  "wf_other (SetColorMapEntries first rgb) \<longleftrightarrow>
     first < 65536 \<and> length rgb mod 6 = 0 \<and> length rgb div 6 < 65536"
| "wf_other Bell \<longleftrightarrow> True"
| "wf_other (ServerCutText txt) \<longleftrightarrow> length txt < 4294967296"

text \<open>
  What the standalone tool leaves unread of an update: from the payload of the first
  rectangle that is not Raw onwards.
\<close>

definition unread :: "rect list \<Rightarrow> bytes" where
  "unread rs =
     (case dropWhile is_raw rs of
        [] \<Rightarrow> []
      | u # post \<Rightarrow> rect_payload u @ concat (map wire_rect post))"

section \<open>Key events\<close>

text \<open>
  A Python \<open>str\<close> is a sequence of Unicode code points. \<open>cps\<close> turns an ASCII literal
  into one.
\<close>

type_synonym pystr = "nat list"

definition cps :: "string \<Rightarrow> pystr" where
  "cps s = map of_char s"

text \<open>The dictionary \<open>KEYSYM_MAP\<close>.\<close>

definition KEYSYM_MAP :: "pystr \<rightharpoonup> nat" where
  "KEYSYM_MAP = map_of (map (\<lambda>(k, v). (cps k, v))
     [(''return'', 0xff0d), (''enter'', 0xff0d),
      (''tab'', 0xff09),
      (''escape'', 0xff1b), (''esc'', 0xff1b),
      (''backspace'', 0xff08), (''delete'', 0xffff),
      (''space'', 0x0020),
      (''up'', 0xff52), (''down'', 0xff54), (''left'', 0xff51), (''right'', 0xff53),
      (''home'', 0xff50), (''end'', 0xff57),
      (''pageup'', 0xff55), (''pagedown'', 0xff56),
      (''f1'', 0xffbe), (''f2'', 0xffbf), (''f3'', 0xffc0), (''f4'', 0xffc1),
      (''f5'', 0xffc2), (''f6'', 0xffc3), (''f7'', 0xffc4), (''f8'', 0xffc5),
      (''f9'', 0xffc6), (''f10'', 0xffc7), (''f11'', 0xffc8), (''f12'', 0xffc9),
      (''shift'', 0xffe1), (''shift_l'', 0xffe1), (''shift_r'', 0xffe2),
      (''ctrl'', 0xffe3), (''control'', 0xffe3), (''ctrl_l'', 0xffe3), (''ctrl_r'', 0xffe4),
      (''alt'', 0xffe9), (''option'', 0xffe9), (''alt_l'', 0xffe9), (''alt_r'', 0xffea),
      (''cmd'', 0xffe7), (''command'', 0xffe7), (''meta'', 0xffe7), (''super'', 0xffeb),
      (''super_l'', 0xffeb), (''super_r'', 0xffec),
      (''insert'', 0xff63),
      (''capslock'', 0xffe5),
      (''numlock'', 0xff7f)])"

text \<open>
  \<open>str.lower\<close> is the library's; the operations take it as the parameter \<open>lower\<close>.
  On a string of ASCII characters it is \<open>ascii_lower\<close>.
\<close>

definition ascii_lower :: "pystr \<Rightarrow> pystr" where
  "ascii_lower s = map (\<lambda>c. if 65 \<le> c \<and> c \<le> 90 then c + 32 else c) s"

text \<open>\<open>str.isspace\<close> on one character, and \<open>str.strip()\<close>.\<close>

definition is_space :: "nat \<Rightarrow> bool" where
  "is_space c \<longleftrightarrow>
     (9 \<le> c \<and> c \<le> 13) \<or> (28 \<le> c \<and> c \<le> 32) \<or> c = 0x85 \<or> c = 0xA0 \<or> c = 0x1680
     \<or> (0x2000 \<le> c \<and> c \<le> 0x200A) \<or> c = 0x2028 \<or> c = 0x2029 \<or> c = 0x202F
     \<or> c = 0x205F \<or> c = 0x3000"

definition strip :: "pystr \<Rightarrow> pystr" where
  "strip s = rev (dropWhile is_space (rev (dropWhile is_space s)))"

text \<open>\<open>s.split(sep)\<close> for a one-character separator.\<close>

fun split :: "nat \<Rightarrow> pystr \<Rightarrow> pystr list" where
  "split sep [] = [[]]"
| "split sep (c # cs) =
     (if c = sep then [] # split sep cs
      else (case split sep cs of
              [] \<Rightarrow> [[c]]
            | p # ps \<Rightarrow> (c # p) # ps))"

text \<open>
  \<open>send_key_event(key, down)\<close>: \<open>struct.pack('>BBxxI', 4, 1 if down else 0, key)\<close>, which
  raises when \<open>key\<close> does not fit 32 bits, then \<open>sock.send\<close>.
\<close>

definition key_event_msg :: "nat \<Rightarrow> bool \<Rightarrow> bytes" where
  "key_event_msg key down = [4, if down then 1 else 0, 0, 0] @ pack_I key"

definition send_key_event :: "nat \<Rightarrow> bool \<Rightarrow> sock \<Rightarrow> (error + unit) \<times> sock" where
  "send_key_event key down s =
     (if key < 2 ^ 32 then (Inr (), sock_send (key_event_msg key down) s)
      else (Inl StructError, s))"

text \<open>
  \<open>press_key(key_name)\<close>:
  \<^verbatim>\<open>
    keysym = KEYSYM_MAP.get(key_name.lower())
    if keysym is None:
        if len(key_name) == 1: keysym = ord(key_name)
        else: raise ValueError(f"Unknown key: {key_name}")
    self.send_key_event(keysym, True)
    self.send_key_event(keysym, False)
  \<close>
\<close>

definition press_key :: "(pystr \<Rightarrow> pystr) \<Rightarrow> pystr \<Rightarrow> sock \<Rightarrow> (error + unit) \<times> sock" where
  "press_key lower key_name s =
     (case (case KEYSYM_MAP (lower key_name) of
              Some keysym \<Rightarrow> Inr keysym
            | None \<Rightarrow> if length key_name = 1 then Inr (hd key_name)
                      else Inl (UnknownKey key_name)) of
        Inl e \<Rightarrow> (Inl e, s)
      | Inr keysym \<Rightarrow>
          (case send_key_event keysym True s of
             (Inl e, s1) \<Rightarrow> (Inl e, s1)
           | (Inr u, s1) \<Rightarrow> send_key_event keysym False s1))"

text \<open>
  \<open>key_combo(combo)\<close>. The first loop resolves every part and raises at the first one
  that does not resolve, before anything is sent:
  \<^verbatim>\<open>
    for part in parts:
        part = part.strip()
        keysym = KEYSYM_MAP.get(part)
        if keysym is None:
            if len(part) == 1: keysym = ord(part)
            else: raise ValueError(f"Unknown key in combo: {part}")
        keys.append(keysym)
  \<close>
\<close>

fun resolve_keys :: "pystr list \<Rightarrow> nat list \<Rightarrow> error + nat list" where
  "resolve_keys [] keys = Inr keys"
| "resolve_keys (part0 # parts) keys =
     (let part = strip part0 in
      case KEYSYM_MAP part of
        Some keysym \<Rightarrow> resolve_keys parts (keys @ [keysym])
      | None \<Rightarrow>
          if length part = 1 then resolve_keys parts (keys @ [hd part])
          else Inl (UnknownKeyInCombo part))"

text \<open>\<open>for k in ks: self.send_key_event(k, down)\<close>\<close>

fun send_key_events :: "nat list \<Rightarrow> bool \<Rightarrow> sock \<Rightarrow> (error + unit) \<times> sock" where
  "send_key_events [] down s = (Inr (), s)"
| "send_key_events (k # ks) down s =
     (case send_key_event k down s of
        (Inl e, s1) \<Rightarrow> (Inl e, s1)
      | (Inr u, s1) \<Rightarrow> send_key_events ks down s1)"

definition key_combo :: "(pystr \<Rightarrow> pystr) \<Rightarrow> pystr \<Rightarrow> sock \<Rightarrow> (error + unit) \<times> sock" where
  "key_combo lower combo s =
     (let parts = split 43 (lower combo) in
      case resolve_keys parts [] of
        Inl e \<Rightarrow> (Inl e, s)
      | Inr keys \<Rightarrow>
          (case send_key_events keys True s of
             (Inl e, s1) \<Rightarrow> (Inl e, s1)
           | (Inr u, s1) \<Rightarrow> send_key_events (rev keys) False s1))"

text \<open>
  What one pass of the resolving loop appends for a part: the table's keysym for the
  stripped part, else the code point of a stripped part of length one.
\<close>

definition resolves_to :: "pystr \<Rightarrow> nat \<Rightarrow> bool" where
  "resolves_to part k \<longleftrightarrow>
     KEYSYM_MAP (strip part) = Some k \<or> (KEYSYM_MAP (strip part) = None \<and> strip part = [k])"

text \<open>
  A combo string as it is written from its parts: \<open>sep.join(parts)\<close>. The parts of a
  string are what \<open>split\<close> gives back when no part contains the separator.
\<close>

fun join :: "nat \<Rightarrow> pystr list \<Rightarrow> pystr" where
  "join sep [] = []"
| "join sep [p] = p"
| "join sep (p # q # ps) = p @ sep # join sep (q # ps)"

section \<open>Key derivation: proofs\<close>

lemma int_base2_snoc:
  "int_base2 (cs @ [c]) = 2 * int_base2 cs + (if c = CHR ''1'' then 1 else 0)"
  by (simp add: int_base2_def)

lemma bit_int_base2:
  "bit (int_base2 cs) i \<longleftrightarrow> i < length cs \<and> rev cs ! i = CHR ''1''"
proof (induction cs arbitrary: i rule: rev_induct)
  case Nil
  show ?case by (simp add: int_base2_def)
next
  case (snoc c cs)
  show ?case
  proof (cases i)
    case 0
    then show ?thesis by (simp add: int_base2_snoc bit_0)
  next
    case (Suc j)
    have "(2 * int_base2 cs + (if c = CHR ''1'' then 1 else 0)) div 2 = int_base2 cs"
      by simp
    then show ?thesis
      using Suc snoc.IH [of j] by (simp add: int_base2_snoc bit_Suc)
  qed
qed

lemma length_format_08b: "length (format_08b b) = 8"
  by (simp add: format_08b_def)

lemma bit_reverse_bits: "bit (reverse_bits b) i \<longleftrightarrow> i < 8 \<and> bit b (7 - i)"
proof (cases "i < 8")
  case True
  then have "format_08b b ! i = (if bit b (7 - i) then CHR ''1'' else CHR ''0'')"
    unfolding format_08b_def by (subst nth_map) simp_all
  with True show ?thesis
    by (simp add: reverse_bits_def bit_of_nat_iff bit_int_base2 length_format_08b)
next
  case False
  then show ?thesis
    by (simp add: reverse_bits_def bit_of_nat_iff)
qed

lemma length_vnc_key: "length (vnc_key p) = 8"
  by (simp add: vnc_key_def)

lemma vnc_key_pad: "vnc_key p = take 8 (p @ replicate (8 - length p) 0)"
  by (simp add: vnc_key_def)

lemma vnc_key_take: "vnc_key (take 8 p) = vnc_key p"
  by (simp add: vnc_key_def)

text \<open>
  C3. The DES key is the encoded password, right-padded with zero bytes to at least 8 bytes
  and cut to its first 8 bytes, with the bit order of each byte reversed (bit \<open>7 - i\<close> of
  the input byte is bit \<open>i\<close> of the output byte). It has exactly 8 bytes for every
  password, and only the first 8 bytes of the password influence it.
\<close>

theorem C3_derive_key:
  "length (deriveKey p) = 8
   \<and> deriveKey p = map reverse_bits (take 8 (p @ replicate (8 - length p) 0))
   \<and> (bit (reverse_bits b) i \<longleftrightarrow> i < 8 \<and> bit b (7 - i))
   \<and> deriveKey (take 8 p) = deriveKey p"
proof -
  have "length (deriveKey p) = 8"
    by (simp add: deriveKey_def reversed_key_def length_vnc_key)
  moreover have "deriveKey p = map reverse_bits (take 8 (p @ replicate (8 - length p) 0))"
    unfolding deriveKey_def reversed_key_def by (subst vnc_key_pad) (rule refl)
  moreover have "deriveKey (take 8 p) = deriveKey p"
    unfolding deriveKey_def by (subst vnc_key_take) (rule refl)
  ultimately show ?thesis
    using bit_reverse_bits [of b i] by blast
qed

section \<open>The VNCAuth response: proofs\<close>

text \<open>
  C4. For a 16-byte challenge, and a cipher that maps an 8-byte block under an 8-byte key
  to an 8-byte block (as DES in ECB mode does), the response is the encryption of
  \<open>challenge[0:8]\<close> followed by the encryption of \<open>challenge[8:16]\<close>, both under the
  derived key: 16 bytes. A challenge that agrees on its first 8 bytes gives the same
  first half of the response.
\<close>

theorem C4_auth_response:
  assumes len: "length challenge = 16"
    and blk: "\<And>k d. length k = 8 \<Longrightarrow> length d = 8 \<Longrightarrow> \<exists>c. cipher k d = Inr c \<and> length c = 8"
  shows "\<exists>r1 r2. cipher (deriveKey password) (take 8 challenge) = Inr r1
           \<and> cipher (deriveKey password) (drop 8 challenge) = Inr r2
           \<and> length r1 = 8 \<and> length r2 = 8
           \<and> auth_response cipher password challenge = Inr (r1 @ r2)
           \<and> (\<forall>challenge'. length challenge' = 16 \<and> take 8 challenge' = take 8 challenge
                 \<longrightarrow> (\<exists>r2'. length r2' = 8
                        \<and> auth_response cipher password challenge' = Inr (r1 @ r2')))"
proof -
  have k: "length (deriveKey password) = 8"
    by (simp add: deriveKey_def reversed_key_def vnc_key_def)
  have resp: "\<exists>r1 r2. cipher (deriveKey password) (take 8 ch) = Inr r1
           \<and> cipher (deriveKey password) (drop 8 ch) = Inr r2
           \<and> length r1 = 8 \<and> length r2 = 8
           \<and> auth_response cipher password ch = Inr (r1 @ r2)" if l: "length ch = 16" for ch
  proof -
    from l have "length (take 8 ch) = 8" and d: "length (drop 8 ch) = 8"
      by simp_all
    with blk [OF k] obtain r1 r2 where
      r1: "cipher (deriveKey password) (take 8 ch) = Inr r1" "length r1 = 8" and
      r2: "cipher (deriveKey password) (drop 8 ch) = Inr r2" "length r2 = 8"
      by blast
    from d have "take 8 (drop 8 ch) = drop 8 ch"
      by simp
    with r1 r2 have "auth_response cipher password ch = Inr (r1 @ r2)"
      by (simp add: auth_response_def vnc_des_encrypt_def deriveKey_def)
    with r1 r2 show ?thesis by blast
  qed
  from resp [OF len] obtain r1 r2 where
    r: "cipher (deriveKey password) (take 8 challenge) = Inr r1"
       "cipher (deriveKey password) (drop 8 challenge) = Inr r2"
       "length r1 = 8" "length r2 = 8"
       "auth_response cipher password challenge = Inr (r1 @ r2)"
    by blast
  have "\<exists>r2'. length r2' = 8 \<and> auth_response cipher password ch' = Inr (r1 @ r2')"
    if "length ch' = 16" and "take 8 ch' = take 8 challenge" for ch'
    using resp [OF that(1)] that(2) r(1) by auto
  with r show ?thesis by blast
qed

theorem C4_auth_response_witness:
  "\<exists>r1 r2. xor_cipher (deriveKey [0x70, 0x77]) (take 8 [1, 2, 3, 4, 5, 6, 7, 8, 9, 10, 11, 12, 13, 14, 15, 16]) = Inr r1
           \<and> xor_cipher (deriveKey [0x70, 0x77]) (drop 8 [1, 2, 3, 4, 5, 6, 7, 8, 9, 10, 11, 12, 13, 14, 15, 16]) = Inr r2
           \<and> length r1 = 8 \<and> length r2 = 8
           \<and> auth_response xor_cipher [0x70, 0x77] [1, 2, 3, 4, 5, 6, 7, 8, 9, 10, 11, 12, 13, 14, 15, 16] = Inr (r1 @ r2)
           \<and> (\<forall>challenge'. length challenge' = 16 \<and> take 8 challenge' = take 8 [1, 2, 3, 4, 5, 6, 7, 8, 9, 10, 11, 12, 13, 14, 15, 16]
                 \<longrightarrow> (\<exists>r2'. length r2' = 8
                        \<and> auth_response xor_cipher [0x70, 0x77] challenge' = Inr (r1 @ r2')))"
  by (rule C4_auth_response) (simp_all add: xor_cipher_def)

section \<open>Security negotiation: proofs\<close>

lemma sock_recv_outbuf: "sock_recv n s = (d, s') \<Longrightarrow> outbuf s' = outbuf s"
  by (auto simp: sock_recv_def split: prod.splits)

lemma outbuf_sock_send: "outbuf (sock_send d s) = outbuf s @ [d]"
  by (simp add: sock_send_def)

lemma connect_init_outbuf: "outbuf (snd (connect_init s)) = outbuf s @ [[1]]"
  unfolding connect_init_def Let_def
  by (auto simp: outbuf_sock_send dest!: sock_recv_outbuf split: prod.splits sum.splits)

lemma tool_init_outbuf: "outbuf (snd (tool_init s)) = outbuf s @ [[1]]"
  unfolding tool_init_def Let_def
  by (auto simp: outbuf_sock_send dest!: sock_recv_outbuf split: prod.splits sum.splits)

lemma connect_rejected:
  assumes "sock_recv 12 s0 = (v, s1)"
    and "sock_recv 1 (sock_send client_version s1) = (c, s3)"
    and "length c = 1" and "be_nat c = 0"
    and "sock_recv 4 s3 = (l, s4)" and "length l = 4" and "sock_recv (be_nat l) s4 = (m, s5)"
  shows "connect cipher pw s0 = (Inl (ConnectionRejected m), s5)"
    and "tool_handshake cipher pw s0 = (Inl (ConnectionRejected m), s5)"
  using assms by (simp_all add: connect_def tool_handshake_def unpack_B_def unpack_I_def)

lemma connect_unsupported:
  assumes "sock_recv 12 s0 = (v, s1)"
    and "sock_recv 1 (sock_send client_version s1) = (c, s3)"
    and "length c = 1" and "be_nat c \<noteq> 0"
    and "sock_recv (be_nat c) s3 = (ts, s4)" and "2 \<notin> set ts" and "1 \<notin> set ts"
  shows "connect cipher pw s0 = (Inl (UnsupportedSecurity ts), s4)"
    and "tool_handshake cipher pw s0 = (Inl (UnsupportedSecurity ts), s4)"
  using assms by (simp_all add: connect_def tool_handshake_def unpack_B_def)

lemma connect_selects_none:
  assumes "sock_recv 12 s0 = (v, s1)"
    and "sock_recv 1 (sock_send client_version s1) = (c, s3)"
    and "length c = 1" and "be_nat c \<noteq> 0"
    and "sock_recv (be_nat c) s3 = (ts, s4)" and "2 \<notin> set ts" and "1 \<in> set ts"
  shows "connect cipher pw s0 = connect_init (sock_send [1] s4)"
    and "tool_handshake cipher pw s0 = tool_init (sock_send [1] s4)"
    and "outbuf s4 = outbuf s0 @ [client_version]"
  using assms sock_recv_outbuf [OF assms(1)] sock_recv_outbuf [OF assms(2)] sock_recv_outbuf [OF assms(5)]
  by (simp_all add: connect_def tool_handshake_def unpack_B_def outbuf_sock_send)

lemma connect_selects_vncauth:
  assumes "sock_recv 12 s0 = (v, s1)"
    and "sock_recv 1 (sock_send client_version s1) = (c, s3)"
    and "length c = 1" and "be_nat c \<noteq> 0"
    and "sock_recv (be_nat c) s3 = (ts, s4)" and "2 \<in> set ts"
  shows "\<exists>rest. outbuf (snd (connect cipher pw s0)) = outbuf s0 @ [client_version, [2]] @ rest"
    and "\<exists>rest. outbuf (snd (tool_handshake cipher pw s0)) = outbuf s0 @ [client_version, [2]] @ rest"
proof -
  have o4: "outbuf s4 = outbuf s0 @ [client_version]"
    using sock_recv_outbuf [OF assms(1)] sock_recv_outbuf [OF assms(2)] sock_recv_outbuf [OF assms(5)]
    by (simp add: outbuf_sock_send)
  show "\<exists>rest. outbuf (snd (connect cipher pw s0)) = outbuf s0 @ [client_version, [2]] @ rest"
    using assms o4 unfolding connect_def Let_def
    by (auto simp: unpack_B_def outbuf_sock_send connect_init_outbuf
        dest!: sock_recv_outbuf split: prod.splits sum.splits)
  show "\<exists>rest. outbuf (snd (tool_handshake cipher pw s0)) = outbuf s0 @ [client_version, [2]] @ rest"
    using assms o4 unfolding tool_handshake_def Let_def
    by (auto simp: unpack_B_def outbuf_sock_send tool_init_outbuf
        dest!: sock_recv_outbuf split: prod.splits sum.splits)
qed


text \<open>
  The selection policy on what the reads return. After the version exchange the handshake
  reads the count byte. If it is zero and \<open>recv(4)\<close> returns four bytes, the handshake
  fails with \<open>ConnectionRejected\<close> carrying what the next \<open>recv\<close> returns. Otherwise,
  with \<open>ts\<close> what \<open>recv(count)\<close> returns: if 2 is in \<open>ts\<close> the client writes the selection
  byte 2; else if 1 is in \<open>ts\<close> it writes the selection byte 1; else it fails with
  \<open>UnsupportedSecurity\<close> carrying \<open>ts\<close>. Both scripts behave so.
\<close>

lemma security_negotiation_on_reads:
  assumes "sock_recv 12 s0 = (v, s1)"
    and "sock_recv 1 (sock_send client_version s1) = (c, s3)"
    and "length c = 1"
  shows "(be_nat c = 0 \<longrightarrow>
            (\<forall>l s4 m s5. sock_recv 4 s3 = (l, s4) \<and> length l = 4 \<and> sock_recv (be_nat l) s4 = (m, s5)
               \<longrightarrow> connect cipher pw s0 = (Inl (ConnectionRejected m), s5)
                 \<and> tool_handshake cipher pw s0 = (Inl (ConnectionRejected m), s5)))
       \<and> (be_nat c \<noteq> 0 \<longrightarrow>
            (\<forall>ts s4. sock_recv (be_nat c) s3 = (ts, s4) \<longrightarrow>
               (2 \<in> set ts \<longrightarrow>
                  (\<exists>rest. outbuf (snd (connect cipher pw s0)) = outbuf s0 @ [client_version, [2]] @ rest)
                \<and> (\<exists>rest. outbuf (snd (tool_handshake cipher pw s0)) = outbuf s0 @ [client_version, [2]] @ rest))
             \<and> (2 \<notin> set ts \<and> 1 \<in> set ts \<longrightarrow>
                  (\<exists>rest. outbuf (snd (connect cipher pw s0)) = outbuf s0 @ [client_version, [1]] @ rest)
                \<and> (\<exists>rest. outbuf (snd (tool_handshake cipher pw s0)) = outbuf s0 @ [client_version, [1]] @ rest))
             \<and> (2 \<notin> set ts \<and> 1 \<notin> set ts \<longrightarrow>
                  connect cipher pw s0 = (Inl (UnsupportedSecurity ts), s4)
                \<and> tool_handshake cipher pw s0 = (Inl (UnsupportedSecurity ts), s4))))"
proof (intro conjI impI allI)
  fix l s4 m s5
  assume "be_nat c = 0"
    and "sock_recv 4 s3 = (l, s4) \<and> length l = 4 \<and> sock_recv (be_nat l) s4 = (m, s5)"
  then show "connect cipher pw s0 = (Inl (ConnectionRejected m), s5)"
    and "tool_handshake cipher pw s0 = (Inl (ConnectionRejected m), s5)"
    using connect_rejected [OF assms] by blast+
next
  fix ts s4
  assume c: "be_nat c \<noteq> 0" and r: "sock_recv (be_nat c) s3 = (ts, s4)"
  {
    assume "2 \<in> set ts"
    then show "\<exists>rest. outbuf (snd (connect cipher pw s0)) = outbuf s0 @ [client_version, [2]] @ rest"
      and "\<exists>rest. outbuf (snd (tool_handshake cipher pw s0)) = outbuf s0 @ [client_version, [2]] @ rest"
      using connect_selects_vncauth [OF assms c r] by blast+
  }
  {
    assume "2 \<notin> set ts \<and> 1 \<in> set ts"
    then have sel: "connect cipher pw s0 = connect_init (sock_send [1] s4)"
      "tool_handshake cipher pw s0 = tool_init (sock_send [1] s4)"
      "outbuf s4 = outbuf s0 @ [client_version]"
      using connect_selects_none [OF assms c r] by blast+
    show "\<exists>rest. outbuf (snd (connect cipher pw s0)) = outbuf s0 @ [client_version, [1]] @ rest"
      by (simp add: sel connect_init_outbuf outbuf_sock_send)
    show "\<exists>rest. outbuf (snd (tool_handshake cipher pw s0)) = outbuf s0 @ [client_version, [1]] @ rest"
      by (simp add: sel tool_init_outbuf outbuf_sock_send)
  }
  {
    assume "2 \<notin> set ts \<and> 1 \<notin> set ts"
    then show "connect cipher pw s0 = (Inl (UnsupportedSecurity ts), s4)"
      and "tool_handshake cipher pw s0 = (Inl (UnsupportedSecurity ts), s4)"
      using connect_unsupported [OF assms c r] by blast+
  }
qed

lemma security_negotiation_on_reads_example:
  "connect xor_cipher []
      \<lparr>inbuf = [client_version, [0], [0, 0, 0, 2], [0x6E, 0x6F]], outbuf = []\<rparr>
     = (Inl (ConnectionRejected [0x6E, 0x6F]), \<lparr>inbuf = [], outbuf = [client_version]\<rparr>)
   \<and> (\<exists>rest. outbuf (snd (tool_handshake xor_cipher []
          \<lparr>inbuf = [client_version, [2], [1, 2]], outbuf = []\<rparr>)) = [] @ [client_version, [2]] @ rest)
   \<and> (\<exists>rest. outbuf (snd (connect xor_cipher []
          \<lparr>inbuf = [client_version, [2], [5, 1]], outbuf = []\<rparr>)) = [] @ [client_version, [1]] @ rest)
   \<and> tool_handshake xor_cipher []
        \<lparr>inbuf = [client_version, [2], [5, 16]], outbuf = []\<rparr>
     = (Inl (UnsupportedSecurity [5, 16]), \<lparr>inbuf = [], outbuf = [client_version]\<rparr>)"
proof -
  have v: "sock_recv 12 \<lparr>inbuf = client_version # i, outbuf = []\<rparr>
             = (client_version, \<lparr>inbuf = i, outbuf = []\<rparr>)" for i
    by (simp add: sock_recv_def client_version_def)
  have n: "sock_recv 1 (sock_send client_version \<lparr>inbuf = [k] # i, outbuf = []\<rparr>)
             = ([k], \<lparr>inbuf = i, outbuf = [client_version]\<rparr>)" for k i
    by (simp add: sock_recv_def sock_send_def)
  have l: "length [k :: byte] = 1" for k
    by simp
  have a: "sock_recv 4 \<lparr>inbuf = [[0, 0, 0, 2], [0x6E, 0x6F]], outbuf = [client_version]\<rparr>
             = ([0, 0, 0, 2], \<lparr>inbuf = [[0x6E, 0x6F]], outbuf = [client_version]\<rparr>)
           \<and> length [0 :: byte, 0, 0, 2] = 4
           \<and> sock_recv (be_nat [0, 0, 0, 2]) \<lparr>inbuf = [[0x6E, 0x6F]], outbuf = [client_version]\<rparr>
             = ([0x6E, 0x6F], \<lparr>inbuf = [], outbuf = [client_version]\<rparr>)"
    by (simp add: sock_recv_def be_nat_def)
  have t: "sock_recv (be_nat [2]) \<lparr>inbuf = [[x, y]], outbuf = [client_version]\<rparr>
             = ([x, y], \<lparr>inbuf = [], outbuf = [client_version]\<rparr>)" for x y
    by (simp add: sock_recv_def be_nat_def)
  have z: "be_nat [0] = 0" "be_nat [2] \<noteq> 0"
    by (simp_all add: be_nat_def)
  show ?thesis
    using
      security_negotiation_on_reads [where cipher = xor_cipher and pw = "[]",
        OF v n [of 0 "[[0, 0, 0, 2], [0x6E, 0x6F]]"] l]
      security_negotiation_on_reads [where cipher = xor_cipher and pw = "[]", OF v n [of 2 "[[1, 2]]"] l]
      security_negotiation_on_reads [where cipher = xor_cipher and pw = "[]", OF v n [of 2 "[[5, 1]]"] l]
      security_negotiation_on_reads [where cipher = xor_cipher and pw = "[]", OF v n [of 2 "[[5, 16]]"] l]
      a t [of 1 2] t [of 5 1] t [of 5 16] z
    by simp
qed

text \<open>
  C5 (the offer and the rejection text are taken from a single \<open>sock.recv\<close>). A server
  that offers three security types, 16, 2 and 1, the first arriving in a segment of its
  own: both handshakes take \<open>[16]\<close> for the complete list and fail with
  \<open>UnsupportedSecurity\<close> carrying \<open>[16]\<close>, although types 2 and 1 were offered; nothing is
  selected. A server that offers types 19 and 1 in two segments: the same, although type 1
  was offered. A server that sends count zero, the length 4 and the text \<open>"bad!"\<close> in two
  segments: both handshakes fail with \<open>ConnectionRejected\<close> carrying \<open>"ba"\<close>, not the
  server's message. A server that sends count zero and the 4-byte length in two segments:
  both handshakes fail in \<open>struct.unpack\<close>, not with \<open>ConnectionRejected\<close>.
\<close>

theorem C5_segmented_offer:
  "connect xor_cipher [] \<lparr>inbuf = [client_version, [3], [16], [2, 1]], outbuf = []\<rparr>
     = (Inl (UnsupportedSecurity [16]), \<lparr>inbuf = [[2, 1]], outbuf = [client_version]\<rparr>)
   \<and> tool_handshake xor_cipher [] \<lparr>inbuf = [client_version, [3], [16], [2, 1]], outbuf = []\<rparr>
     = (Inl (UnsupportedSecurity [16]), \<lparr>inbuf = [[2, 1]], outbuf = [client_version]\<rparr>)
   \<and> connect xor_cipher [] \<lparr>inbuf = [client_version, [2], [19], [1]], outbuf = []\<rparr>
     = (Inl (UnsupportedSecurity [19]), \<lparr>inbuf = [[1]], outbuf = [client_version]\<rparr>)
   \<and> tool_handshake xor_cipher [] \<lparr>inbuf = [client_version, [2], [19], [1]], outbuf = []\<rparr>
     = (Inl (UnsupportedSecurity [19]), \<lparr>inbuf = [[1]], outbuf = [client_version]\<rparr>)
   \<and> connect xor_cipher []
        \<lparr>inbuf = [client_version, [0], [0, 0, 0, 4], [0x62, 0x61], [0x64, 0x21]], outbuf = []\<rparr>
     = (Inl (ConnectionRejected [0x62, 0x61]), \<lparr>inbuf = [[0x64, 0x21]], outbuf = [client_version]\<rparr>)
   \<and> tool_handshake xor_cipher []
        \<lparr>inbuf = [client_version, [0], [0, 0, 0, 4], [0x62, 0x61], [0x64, 0x21]], outbuf = []\<rparr>
     = (Inl (ConnectionRejected [0x62, 0x61]), \<lparr>inbuf = [[0x64, 0x21]], outbuf = [client_version]\<rparr>)
   \<and> connect xor_cipher []
        \<lparr>inbuf = [client_version, [0], [0, 0], [0, 4], [0x62, 0x61, 0x64, 0x21]], outbuf = []\<rparr>
     = (Inl StructError,
        \<lparr>inbuf = [[0, 4], [0x62, 0x61, 0x64, 0x21]], outbuf = [client_version]\<rparr>)
   \<and> tool_handshake xor_cipher []
        \<lparr>inbuf = [client_version, [0], [0, 0], [0, 4], [0x62, 0x61, 0x64, 0x21]], outbuf = []\<rparr>
     = (Inl StructError,
        \<lparr>inbuf = [[0, 4], [0x62, 0x61, 0x64, 0x21]], outbuf = [client_version]\<rparr>)"
  by (simp add: connect_def tool_handshake_def connect_init_def tool_init_def sock_recv_def
      sock_send_def client_version_def unpack_B_def unpack_I_def unpack_HH_def unpack_sized_def
      py_slice_def be_nat_def)

section \<open>Short reads in the handshake\<close>

text \<open>
  C7 (the handshake reads with \<open>sock.recv\<close>, not \<open>recv_exact\<close>). A ServerInit that
  announces a 4-byte name, on a stream that closes after two bytes of it: both handshakes
  succeed with the 2-byte name. Two offered security types \<open>[5, 1]\<close> arriving in two
  segments: both handshakes take \<open>[5]\<close> for the complete list and fail, although type 1
  was offered.
\<close>

theorem C7_handshake_short_read:
  "connect xor_cipher []
      \<lparr>inbuf = [client_version, [1], [1],
                 [3, 32, 2, 88, 32, 24, 0, 1, 0, 255, 0, 255, 0, 255, 16, 8, 0, 0, 0, 0, 0, 0, 0, 4],
                 [0x54, 0x65]], outbuf = []\<rparr>
     = (Inr \<lparr>sess_width = 800, sess_height = 600, sess_name = [0x54, 0x65]\<rparr>,
        \<lparr>inbuf = [], outbuf = [client_version, [1], [1]]\<rparr>)
   \<and> tool_handshake xor_cipher []
      \<lparr>inbuf = [client_version, [1], [1],
                 [3, 32, 2, 88, 32, 24, 0, 1, 0, 255, 0, 255, 0, 255, 16, 8, 0, 0, 0, 0, 0, 0, 0, 4],
                 [0x54, 0x65]], outbuf = []\<rparr>
     = (Inr \<lparr>sess_width = 800, sess_height = 600, sess_name = [0x54, 0x65]\<rparr>,
        \<lparr>inbuf = [], outbuf = [client_version, [1], [1]]\<rparr>)
   \<and> connect xor_cipher [] \<lparr>inbuf = [client_version, [2], [5], [1]], outbuf = []\<rparr>
     = (Inl (UnsupportedSecurity [5]), \<lparr>inbuf = [[1]], outbuf = [client_version]\<rparr>)
   \<and> tool_handshake xor_cipher [] \<lparr>inbuf = [client_version, [2], [5], [1]], outbuf = []\<rparr>
     = (Inl (UnsupportedSecurity [5]), \<lparr>inbuf = [[1]], outbuf = [client_version]\<rparr>)"
  by (simp add: connect_def tool_handshake_def connect_init_def tool_init_def sock_recv_def
      sock_send_def client_version_def unpack_B_def unpack_I_def unpack_HH_def unpack_sized_def
      py_slice_def be_nat_def)

section \<open>Key events: proofs\<close>

lemma KEYSYM_MAP_bound: "KEYSYM_MAP p = Some k \<Longrightarrow> k < 2 ^ 32"
  unfolding KEYSYM_MAP_def by (drule map_of_SomeD) auto

lemma send_key_event_ok:
  "k < 2 ^ 32 \<Longrightarrow> send_key_event k d s = (Inr (), s\<lparr>outbuf := outbuf s @ [key_event_msg k d]\<rparr>)"
  by (simp add: send_key_event_def sock_send_def)

lemma send_key_events_ok:
  "\<forall>k\<in>set ks. k < 2 ^ 32 \<Longrightarrow>
   send_key_events ks d s = (Inr (), s\<lparr>outbuf := outbuf s @ map (\<lambda>k. key_event_msg k d) ks\<rparr>)"
  by (induction ks arbitrary: s) (simp_all add: send_key_event_ok)

lemma resolve_keys_Inr:
  "resolve_keys parts acc = Inr keys \<Longrightarrow>
   \<exists>ks. keys = acc @ ks \<and> list_all2 resolves_to parts ks"
proof (induction parts arbitrary: acc)
  case Nil
  then show ?case by simp
next
  case (Cons p parts)
  show ?case
  proof (cases "KEYSYM_MAP (strip p)")
    case (Some k)
    with Cons.prems have "resolve_keys parts (acc @ [k]) = Inr keys"
      by (simp add: Let_def)
    from Cons.IH [OF this] obtain ks where "keys = (acc @ [k]) @ ks" "list_all2 resolves_to parts ks"
      by blast
    with Some have "keys = acc @ (k # ks) \<and> list_all2 resolves_to (p # parts) (k # ks)"
      by (simp add: resolves_to_def)
    then show ?thesis by blast
  next
    case None
    with Cons.prems have l: "length (strip p) = 1"
      by (simp add: Let_def split: if_splits)
    then obtain c where c: "strip p = [c]"
      by (cases "strip p") simp_all
    with None Cons.prems have "resolve_keys parts (acc @ [c]) = Inr keys"
      by (simp add: Let_def)
    from Cons.IH [OF this] obtain ks where "keys = (acc @ [c]) @ ks" "list_all2 resolves_to parts ks"
      by blast
    with None c have "keys = acc @ (c # ks) \<and> list_all2 resolves_to (p # parts) (c # ks)"
      by (simp add: resolves_to_def)
    then show ?thesis by blast
  qed
qed

lemma set_split: "p \<in> set (split sep s) \<Longrightarrow> set p \<subseteq> set s"
proof (induction s arbitrary: p)
  case Nil
  then show ?case by simp
next
  case (Cons c cs)
  show ?case
  proof (cases "c = sep")
    case True
    with Cons show ?thesis by auto
  next
    case False
    show ?thesis
    proof (cases "split sep cs")
      case Nil
      with False Cons.prems show ?thesis by auto
    next
      case sp: (Cons q qs)
      then have q: "set q \<subseteq> set cs" and qs: "\<And>r. r \<in> set qs \<Longrightarrow> set r \<subseteq> set cs"
        using Cons.IH by simp_all
      from False sp Cons.prems have "p = c # q \<or> p \<in> set qs"
        by simp
      with q qs show ?thesis by auto
    qed
  qed
qed

lemma set_strip: "set (strip p) \<subseteq> set p"
  by (auto simp: strip_def dest!: set_dropWhileD)

lemma resolves_to_bound:
  "resolves_to part k \<Longrightarrow> \<forall>c\<in>set part. c < 1114112 \<Longrightarrow> k < 2 ^ 32"
proof -
  assume r: "resolves_to part k" and b: "\<forall>c\<in>set part. c < 1114112"
  show ?thesis
  proof (cases "KEYSYM_MAP (strip part)")
    case (Some a)
    with r show ?thesis by (auto simp: resolves_to_def dest: KEYSYM_MAP_bound)
  next
    case None
    with r have "k \<in> set (strip part)" by (simp add: resolves_to_def)
    with set_strip b have "k < 1114112" by blast
    then show ?thesis by simp
  qed
qed


lemma resolve_keys_complete:
  "\<forall>p\<in>set parts. \<exists>k. resolves_to p k \<Longrightarrow>
   \<exists>ks. resolve_keys parts acc = Inr (acc @ ks) \<and> list_all2 resolves_to parts ks"
proof (induction parts arbitrary: acc)
  case Nil
  then show ?case by simp
next
  case (Cons p parts)
  from Cons.prems obtain k where k: "resolves_to p k"
    by auto
  from Cons.prems have "\<forall>p\<in>set parts. \<exists>k. resolves_to p k"
    by simp
  from Cons.IH [OF this, of "acc @ [k]"] obtain ks
    where ks: "resolve_keys parts (acc @ [k]) = Inr ((acc @ [k]) @ ks)"
      "list_all2 resolves_to parts ks"
    by blast
  from k have "resolve_keys (p # parts) acc = resolve_keys parts (acc @ [k])"
    by (auto simp: resolves_to_def Let_def)
  with ks k have "resolve_keys (p # parts) acc = Inr (acc @ (k # ks))
      \<and> list_all2 resolves_to (p # parts) (k # ks)"
    by simp
  then show ?case
    by blast
qed

lemma split_no_sep: "sep \<notin> set p \<Longrightarrow> split sep p = [p]"
  by (induction p) auto

lemma split_app_sep: "sep \<notin> set p \<Longrightarrow> split sep (p @ sep # r) = p # split sep r"
  by (induction p) auto

lemma split_join:
  "parts \<noteq> [] \<Longrightarrow> \<forall>p\<in>set parts. sep \<notin> set p \<Longrightarrow> split sep (join sep parts) = parts"
  by (induction sep parts rule: join.induct) (simp_all add: split_no_sep split_app_sep)

lemma key_event_msg_bytes:
  "key_event_msg k True =
     [4, 1, 0, 0, of_nat (k div 16777216), of_nat (k div 65536 mod 256),
      of_nat (k div 256 mod 256), of_nat (k mod 256)]"
  "key_event_msg k False =
     [4, 0, 0, 0, of_nat (k div 16777216), of_nat (k div 65536 mod 256),
      of_nat (k div 256 mod 256), of_nat (k mod 256)]"
  by (simp_all add: key_event_msg_def pack_I_def)

lemma key_combo_events:
  assumes "parts \<noteq> []" and "\<forall>p\<in>set parts. 43 \<notin> set p" and "lower combo = join 43 parts"
    and "\<forall>p\<in>set parts. \<exists>k. resolves_to p k"
    and "\<forall>c\<in>set (lower combo). c < 1114112"
  shows "\<exists>keys. list_all2 resolves_to parts keys
           \<and> key_combo lower combo s =
               (Inr (), s\<lparr>outbuf := outbuf s
                  @ map (\<lambda>k. [4, 1, 0, 0, of_nat (k div 16777216), of_nat (k div 65536 mod 256),
                                of_nat (k div 256 mod 256), of_nat (k mod 256)]) keys
                  @ map (\<lambda>k. [4, 0, 0, 0, of_nat (k div 16777216), of_nat (k div 65536 mod 256),
                                of_nat (k div 256 mod 256), of_nat (k mod 256)]) (rev keys)\<rparr>)"
proof -
  have sp: "split 43 (lower combo) = parts"
    using assms(1,2,3) by (simp add: split_join)
  from resolve_keys_complete [OF assms(4), of "[]"] obtain keys
    where r: "resolve_keys parts [] = Inr keys" and la: "list_all2 resolves_to parts keys"
    by auto
  have "k < 2 ^ 32" if "k \<in> set keys" for k
  proof -
    from that obtain i where i: "i < length keys" "keys ! i = k"
      by (auto simp: in_set_conv_nth)
    with la have "resolves_to (parts ! i) k"
      by (auto dest: list_all2_nthD2)
    moreover from la i have "parts ! i \<in> set (split 43 (lower combo))"
      by (simp add: list_all2_lengthD sp)
    then have "\<forall>c\<in>set (parts ! i). c < 1114112"
      using set_split assms(5) by blast
    ultimately show ?thesis
      by (rule resolves_to_bound)
  qed
  then have b: "\<forall>k\<in>set keys. k < 2 ^ 32" "\<forall>k\<in>set (rev keys). k < 2 ^ 32"
    by simp_all
  have "key_combo lower combo s =
          (Inr (), s\<lparr>outbuf := outbuf s @ map (\<lambda>k. key_event_msg k True) keys
                                       @ map (\<lambda>k. key_event_msg k False) (rev keys)\<rparr>)"
    by (simp add: key_combo_def sp r send_key_events_ok [OF b(1)] send_key_events_ok [OF b(2)])
  with la show ?thesis
    unfolding key_event_msg_bytes by blast
qed

lemma key_combo_ctrl_c:
  "key_combo ascii_lower (cps ''ctrl+c'') s =
     (Inr (), s\<lparr>outbuf := outbuf s @
        [[4, 1, 0, 0, 0, 0, 0xff, 0xe3], [4, 1, 0, 0, 0, 0, 0, 0x63],
         [4, 0, 0, 0, 0, 0, 0, 0x63], [4, 0, 0, 0, 0, 0, 0xff, 0xe3]]\<rparr>)"
  by (simp add: key_combo_def ascii_lower_def cps_def KEYSYM_MAP_def send_key_event_def
      sock_send_def strip_def is_space_def key_event_msg_def pack_I_def)

text \<open>
  C8. A combo string whose lower-cased form is its parts joined by \<open>+\<close> (code point 43),
  every part resolving to a keysym (the table's entry for the stripped part, else the
  code point of a stripped part of one character), all code points below 0x110000.
  \<open>key_combo\<close> succeeds and writes exactly these messages, with \<open>keys\<close> the keysyms of the
  parts, part by part: for each keysym in the order of the parts the 8 bytes
  \<open>4, 1, 0, 0\<close> and the keysym as a big-endian 32-bit number (key down), then for each
  keysym in the reverse order the 8 bytes \<open>4, 0, 0, 0\<close> and the keysym (key up). For
  \<open>"ctrl+c"\<close>: down 0xffe3, down 0x63, up 0x63, up 0xffe3.
\<close>

theorem C8_key_combo:
  "(parts \<noteq> [] \<and> (\<forall>p\<in>set parts. 43 \<notin> set p) \<and> lower combo = join 43 parts
      \<and> (\<forall>p\<in>set parts. \<exists>k. resolves_to p k)
      \<and> (\<forall>c\<in>set (lower combo). c < 1114112) \<longrightarrow>
      (\<exists>keys. list_all2 resolves_to parts keys
         \<and> key_combo lower combo s =
             (Inr (), s\<lparr>outbuf := outbuf s
                @ map (\<lambda>k. [4, 1, 0, 0, of_nat (k div 16777216), of_nat (k div 65536 mod 256),
                              of_nat (k div 256 mod 256), of_nat (k mod 256)]) keys
                @ map (\<lambda>k. [4, 0, 0, 0, of_nat (k div 16777216), of_nat (k div 65536 mod 256),
                              of_nat (k div 256 mod 256), of_nat (k mod 256)]) (rev keys)\<rparr>)))
   \<and> key_combo ascii_lower (cps ''ctrl+c'') s =
       (Inr (), s\<lparr>outbuf := outbuf s @
          [[4, 1, 0, 0, 0, 0, 0xff, 0xe3], [4, 1, 0, 0, 0, 0, 0, 0x63],
           [4, 0, 0, 0, 0, 0, 0, 0x63], [4, 0, 0, 0, 0, 0, 0xff, 0xe3]]\<rparr>)"
  using key_combo_events [of parts lower combo s] key_combo_ctrl_c [of s]
  by blast

theorem C8_key_combo_witness:
  "[cps ''ctrl '', cps '' shift'', cps ''a''] \<noteq> []
   \<and> ascii_lower (cps ''Ctrl + Shift+A'') = join 43 [cps ''ctrl '', cps '' shift'', cps ''a'']
   \<and> resolves_to (cps ''ctrl '') 0xffe3 \<and> resolves_to (cps '' shift'') 0xffe1
   \<and> resolves_to (cps ''a'') 0x61
   \<and> (\<exists>keys. list_all2 resolves_to [cps ''ctrl '', cps '' shift'', cps ''a''] keys
         \<and> key_combo ascii_lower (cps ''Ctrl + Shift+A'') \<lparr>inbuf = [], outbuf = []\<rparr> =
             (Inr (), \<lparr>inbuf = [], outbuf =
                map (\<lambda>k. [4, 1, 0, 0, of_nat (k div 16777216), of_nat (k div 65536 mod 256),
                           of_nat (k div 256 mod 256), of_nat (k mod 256)]) keys
                @ map (\<lambda>k. [4, 0, 0, 0, of_nat (k div 16777216), of_nat (k div 65536 mod 256),
                              of_nat (k div 256 mod 256), of_nat (k mod 256)]) (rev keys)\<rparr>))
   \<and> key_combo ascii_lower (cps ''Ctrl + Shift+A'') \<lparr>inbuf = [], outbuf = []\<rparr> =
       (Inr (), \<lparr>inbuf = [], outbuf =
          [[4, 1, 0, 0, 0, 0, 0xff, 0xe3], [4, 1, 0, 0, 0, 0, 0xff, 0xe1], [4, 1, 0, 0, 0, 0, 0, 0x61],
           [4, 0, 0, 0, 0, 0, 0, 0x61], [4, 0, 0, 0, 0, 0, 0xff, 0xe1], [4, 0, 0, 0, 0, 0, 0xff, 0xe3]]\<rparr>)"
proof -
  have j: "ascii_lower (cps ''Ctrl + Shift+A'') = join 43 [cps ''ctrl '', cps '' shift'', cps ''a'']"
    by (simp add: ascii_lower_def cps_def)
  have r: "resolves_to (cps ''ctrl '') 0xffe3" "resolves_to (cps '' shift'') 0xffe1"
    "resolves_to (cps ''a'') 0x61"
    by (simp_all add: resolves_to_def cps_def KEYSYM_MAP_def strip_def is_space_def)
  have n: "\<forall>p\<in>set [cps ''ctrl '', cps '' shift'', cps ''a'']. 43 \<notin> set p"
    by (simp add: cps_def)
  have a: "\<forall>p\<in>set [cps ''ctrl '', cps '' shift'', cps ''a'']. \<exists>k. resolves_to p k"
    using r by auto
  have b: "\<forall>c\<in>set (ascii_lower (cps ''Ctrl + Shift+A'')). c < 1114112"
    by (simp add: ascii_lower_def cps_def)
  have e: "key_combo ascii_lower (cps ''Ctrl + Shift+A'') \<lparr>inbuf = [], outbuf = []\<rparr> =
       (Inr (), \<lparr>inbuf = [], outbuf =
          [[4, 1, 0, 0, 0, 0, 0xff, 0xe3], [4, 1, 0, 0, 0, 0, 0xff, 0xe1], [4, 1, 0, 0, 0, 0, 0, 0x61],
           [4, 0, 0, 0, 0, 0, 0, 0x61], [4, 0, 0, 0, 0, 0, 0xff, 0xe1], [4, 0, 0, 0, 0, 0, 0xff, 0xe3]]\<rparr>)"
    by (simp add: key_combo_def ascii_lower_def cps_def KEYSYM_MAP_def send_key_event_def
        sock_send_def strip_def is_space_def key_event_msg_def pack_I_def)
  from C8_key_combo [of "[cps ''ctrl '', cps '' shift'', cps ''a'']" ascii_lower
      "cps ''Ctrl + Shift+A''" "\<lparr>inbuf = [], outbuf = []\<rparr>"] j n a b
  have "\<exists>keys. list_all2 resolves_to [cps ''ctrl '', cps '' shift'', cps ''a''] keys
         \<and> key_combo ascii_lower (cps ''Ctrl + Shift+A'') \<lparr>inbuf = [], outbuf = []\<rparr> =
             (Inr (), \<lparr>inbuf = [], outbuf =
                map (\<lambda>k. [4, 1, 0, 0, of_nat (k div 16777216), of_nat (k div 65536 mod 256),
                           of_nat (k div 256 mod 256), of_nat (k mod 256)]) keys
                @ map (\<lambda>k. [4, 0, 0, 0, of_nat (k div 16777216), of_nat (k div 65536 mod 256),
                              of_nat (k div 256 mod 256), of_nat (k mod 256)]) (rev keys)\<rparr>)"
    by simp
  with j r e show ?thesis
    by simp
qed

lemma press_key_table:
  "KEYSYM_MAP (lower key_name) = Some k \<Longrightarrow>
   press_key lower key_name s =
     (Inr (), s\<lparr>outbuf := outbuf s @
        [[4, 1, 0, 0, of_nat (k div 16777216), of_nat (k div 65536 mod 256),
          of_nat (k div 256 mod 256), of_nat (k mod 256)],
         [4, 0, 0, 0, of_nat (k div 16777216), of_nat (k div 65536 mod 256),
          of_nat (k div 256 mod 256), of_nat (k mod 256)]]\<rparr>)"
  by (frule KEYSYM_MAP_bound) (simp add: press_key_def send_key_event_ok key_event_msg_bytes)

lemma press_key_char:
  "KEYSYM_MAP (lower [c]) = None \<Longrightarrow> c < 1114112 \<Longrightarrow>
   press_key lower [c] s =
     (Inr (), s\<lparr>outbuf := outbuf s @
        [[4, 1, 0, 0, of_nat (c div 16777216), of_nat (c div 65536 mod 256),
          of_nat (c div 256 mod 256), of_nat (c mod 256)],
         [4, 0, 0, 0, of_nat (c div 16777216), of_nat (c div 65536 mod 256),
          of_nat (c div 256 mod 256), of_nat (c mod 256)]]\<rparr>)"
  by (simp add: press_key_def send_key_event_ok key_event_msg_bytes)

lemma press_key_unknown:
  "KEYSYM_MAP (lower key_name) = None \<Longrightarrow> length key_name \<noteq> 1 \<Longrightarrow>
   press_key lower key_name s = (Inl (UnknownKey key_name), s)"
  by (simp add: press_key_def)

lemma press_key_examples:
  "press_key ascii_lower (cps ''Return'') s =
     (Inr (), s\<lparr>outbuf := outbuf s @
        [[4, 1, 0, 0, 0, 0, 0xff, 0x0d], [4, 0, 0, 0, 0, 0, 0xff, 0x0d]]\<rparr>)"
  "press_key ascii_lower (cps ''a'') s =
     (Inr (), s\<lparr>outbuf := outbuf s @
        [[4, 1, 0, 0, 0, 0, 0, 0x61], [4, 0, 0, 0, 0, 0, 0, 0x61]]\<rparr>)"
  "press_key ascii_lower (cps ''Zzz'') s = (Inl (UnknownKey (cps ''Zzz'')), s)"
  by (simp_all add: press_key_def ascii_lower_def cps_def KEYSYM_MAP_def send_key_event_def
      sock_send_def key_event_msg_def pack_I_def)

text \<open>
  C9. \<open>press_key\<close> looks the lower-cased name up in the table; a name of one character
  (a code point below 0x110000) that is not in the table gives its code point. With the
  keysym \<open>k\<close> so found it writes two messages: the 8 bytes \<open>4, 1, 0, 0\<close> and \<open>k\<close> as a
  big-endian 32-bit number (key down), then the 8 bytes \<open>4, 0, 0, 0\<close> and \<open>k\<close> (key up).
  Any other name that is not in the table fails with \<open>UnknownKey\<close> carrying the name, and
  nothing is written. \<open>"Return"\<close> writes keysym 0xff0d (bytes \<open>0, 0, 0xff, 0x0d\<close>), \<open>"a"\<close>
  writes keysym 0x61, \<open>"Zzz"\<close> fails.
\<close>

theorem C9_press_key:
  "(\<forall>k. KEYSYM_MAP (lower key_name) = Some k \<longrightarrow>
      press_key lower key_name s =
        (Inr (), s\<lparr>outbuf := outbuf s @
           [[4, 1, 0, 0, of_nat (k div 16777216), of_nat (k div 65536 mod 256),
             of_nat (k div 256 mod 256), of_nat (k mod 256)],
            [4, 0, 0, 0, of_nat (k div 16777216), of_nat (k div 65536 mod 256),
             of_nat (k div 256 mod 256), of_nat (k mod 256)]]\<rparr>))
   \<and> (\<forall>c. KEYSYM_MAP (lower key_name) = None \<and> key_name = [c] \<and> c < 1114112 \<longrightarrow>
      press_key lower key_name s =
        (Inr (), s\<lparr>outbuf := outbuf s @
           [[4, 1, 0, 0, of_nat (c div 16777216), of_nat (c div 65536 mod 256),
             of_nat (c div 256 mod 256), of_nat (c mod 256)],
            [4, 0, 0, 0, of_nat (c div 16777216), of_nat (c div 65536 mod 256),
             of_nat (c div 256 mod 256), of_nat (c mod 256)]]\<rparr>))
   \<and> (KEYSYM_MAP (lower key_name) = None \<and> length key_name \<noteq> 1 \<longrightarrow>
      press_key lower key_name s = (Inl (UnknownKey key_name), s))
   \<and> press_key ascii_lower (cps ''Return'') s =
       (Inr (), s\<lparr>outbuf := outbuf s @
          [[4, 1, 0, 0, 0, 0, 0xff, 0x0d], [4, 0, 0, 0, 0, 0, 0xff, 0x0d]]\<rparr>)
   \<and> press_key ascii_lower (cps ''a'') s =
       (Inr (), s\<lparr>outbuf := outbuf s @
          [[4, 1, 0, 0, 0, 0, 0, 0x61], [4, 0, 0, 0, 0, 0, 0, 0x61]]\<rparr>)
   \<and> press_key ascii_lower (cps ''Zzz'') s = (Inl (UnknownKey (cps ''Zzz'')), s)"
  using press_key_table [of lower key_name _ s] press_key_char [of lower _ s]
    press_key_unknown [of lower key_name s] press_key_examples [of s]
  by blast

theorem C9_press_key_witness:
  "KEYSYM_MAP (ascii_lower (cps ''TAB'')) = Some 0xff09
   \<and> press_key ascii_lower (cps ''TAB'') \<lparr>inbuf = [], outbuf = []\<rparr> =
       (Inr (), \<lparr>inbuf = [], outbuf =
          [[4, 1, 0, 0, 0, 0, 0xff, 0x09], [4, 0, 0, 0, 0, 0, 0xff, 0x09]]\<rparr>)
   \<and> KEYSYM_MAP (ascii_lower (cps ''Q'')) = None
   \<and> press_key ascii_lower (cps ''Q'') \<lparr>inbuf = [], outbuf = []\<rparr> =
       (Inr (), \<lparr>inbuf = [], outbuf =
          [[4, 1, 0, 0, 0, 0, 0, 0x51], [4, 0, 0, 0, 0, 0, 0, 0x51]]\<rparr>)
   \<and> KEYSYM_MAP (ascii_lower (cps ''hyper'')) = None
   \<and> press_key ascii_lower (cps ''hyper'') \<lparr>inbuf = [], outbuf = []\<rparr> =
       (Inl (UnknownKey (cps ''hyper'')), \<lparr>inbuf = [], outbuf = []\<rparr>)"
proof -
  have t: "KEYSYM_MAP (ascii_lower (cps ''TAB'')) = Some 0xff09"
    and q: "KEYSYM_MAP (ascii_lower (cps ''Q'')) = None" "cps ''Q'' = [0x51]"
    and h: "KEYSYM_MAP (ascii_lower (cps ''hyper'')) = None" "length (cps ''hyper'') \<noteq> 1"
    by (simp_all add: ascii_lower_def cps_def KEYSYM_MAP_def)
  from C9_press_key [of ascii_lower "cps ''TAB''" "\<lparr>inbuf = [], outbuf = []\<rparr>"]
    C9_press_key [of ascii_lower "cps ''Q''" "\<lparr>inbuf = [], outbuf = []\<rparr>"]
    C9_press_key [of ascii_lower "cps ''hyper''" "\<lparr>inbuf = [], outbuf = []\<rparr>"]
    t q h
  show ?thesis
    by simp
qed


section \<open>Framebuffer update receiver: proofs\<close>

subsection \<open>Exact reads and the codec\<close>

lemma recv_nonempty: "recv k s = (d, s') \<Longrightarrow> 0 < k \<Longrightarrow> concat s \<noteq> [] \<Longrightarrow> d \<noteq> []"
proof (induction s arbitrary: d s')
  case Nil
  then show ?case by simp
next
  case (Cons c cs)
  then show ?case
    by (cases "c = []") (auto split: if_splits)
qed

lemma recv_exact_loop_enough:
  "length data \<le> n \<Longrightarrow> n - length data \<le> length (concat s) \<Longrightarrow>
   \<exists>s'. recv_exact_loop n data s = Inr (data @ take (n - length data) (concat s), s')
        \<and> concat s' = drop (n - length data) (concat s)"
proof (induction n data s rule: recv_exact_loop.induct)
  case (1 n data s)
  show ?case
  proof (cases "length data < n")
    case False
    with "1.prems" show ?thesis by simp
  next
    case True
    obtain chunk s1 where r: "recv (min (n - length data) 65536) s = (chunk, s1)"
      by (cases "recv (min (n - length data) 65536) s")
    from recv_concat [OF r] have c: "concat s = chunk @ concat s1" .
    from True "1.prems" have "0 < length (concat s)"
      by linarith
    then have "concat s \<noteq> []"
      by (rule length_greater_0_conv [THEN iffD1])
    from recv_nonempty [OF r _ this] True have ne: "chunk \<noteq> []"
      by simp
    from length_recv [of "min (n - length data) 65536" s] r
    have lc: "length chunk \<le> n - length data"
      by simp
    with True have l: "length (data @ chunk) \<le> n"
      by simp
    from "1.prems" c lc have "n - length (data @ chunk) \<le> length (concat s1)"
      by simp
    from "1.IH" [OF True r [symmetric] ne l this] obtain s' where
      s': "recv_exact_loop n (data @ chunk) s1
             = Inr ((data @ chunk) @ take (n - length (data @ chunk)) (concat s1), s')"
          "concat s' = drop (n - length (data @ chunk)) (concat s1)"
      by blast
    from True r ne have "recv_exact_loop n data s = recv_exact_loop n (data @ chunk) s1"
      by simp
    moreover from c lc have "data @ take (n - length data) (concat s)
        = (data @ chunk) @ take (n - length (data @ chunk)) (concat s1)"
      by simp
    moreover from c lc have "drop (n - length data) (concat s)
        = drop (n - length (data @ chunk)) (concat s1)"
      by simp
    ultimately show ?thesis
      using s' by simp
  qed
qed

lemma recv_exact_prefix:
  "concat s = d @ rest \<Longrightarrow> \<exists>s'. recv_exact (length d) s = Inr (d, s') \<and> concat s' = rest"
  unfolding recv_exact_def using recv_exact_loop_enough [of "[]" "length d" s] by simp

lemma recv_exact_short:
  "length (concat s) < n \<Longrightarrow> recv_exact n s = Inl ConnectionClosed"
proof -
  have "recv_exact_loop n data s = Inl ConnectionClosed"
    if "length data + length (concat s) < n" for data
    using that
  proof (induction n data s rule: recv_exact_loop.induct)
    case (1 n data s)
    obtain chunk s1 where r: "recv (min (n - length data) 65536) s = (chunk, s1)"
      by (cases "recv (min (n - length data) 65536) s")
    from recv_concat [OF r] have c: "concat s = chunk @ concat s1" .
    from "1.prems" have lt: "length data < n" by simp
    show ?case
    proof (cases "chunk = []")
      case True
      with lt r show ?thesis by simp
    next
      case False
      from "1.prems" c have "length (data @ chunk) + length (concat s1) < n"
        by simp
      from "1.IH" [OF lt r [symmetric] False this] lt r False show ?thesis
        by simp
    qed
  qed
  from this [of "[]"] show "length (concat s) < n \<Longrightarrow> recv_exact n s = Inl ConnectionClosed"
    by (simp add: recv_exact_def)
qed

lemma unat_byte_of_nat: "n < 256 \<Longrightarrow> unat (of_nat n :: byte) = n"
  by (simp add: unat_of_nat)

lemma be_nat_pack_H: "n < 65536 \<Longrightarrow> be_nat (pack_H n) = n"
  by (simp add: be_nat_def pack_H_def unat_of_nat)

lemma pack_I_digits:
  "16777216 * (n div 16777216) + 65536 * (n div 65536 mod 256) + 256 * (n div 256 mod 256)
     + n mod 256 = (n :: nat)"
proof -
  have 1: "n div 65536 mod 256 = (n mod 16777216) div 65536"
    by (simp add: mod_mult2_eq [of n 65536 256, simplified])
  have 2: "n div 256 mod 256 = (n mod 65536) div 256"
    by (simp add: mod_mult2_eq [of n 256 256, simplified])
  have 3: "n mod 65536 mod 256 = n mod 256"
    by (simp add: mod_mod_cancel)
  have 4: "n mod 16777216 mod 65536 = n mod 65536"
    by (simp add: mod_mod_cancel)
  have "n = 16777216 * (n div 16777216) + n mod 16777216"
    by simp
  also have "n mod 16777216 = 65536 * (n mod 16777216 div 65536) + n mod 16777216 mod 65536"
    by simp
  also have "n mod 16777216 mod 65536 = n mod 65536"
    by (rule 4)
  also have "n mod 65536 = 256 * (n mod 65536 div 256) + n mod 65536 mod 256"
    by simp
  finally show ?thesis
    by (simp add: 1 2 3 add.assoc)
qed

lemma be_nat_pack_I: "n < 4294967296 \<Longrightarrow> be_nat (pack_I n) = n"
proof -
  assume "n < 4294967296"
  then have "n div 16777216 < 256"
    by simp
  then have "be_nat (pack_I n)
      = 16777216 * (n div 16777216) + 65536 * (n div 65536 mod 256) + 256 * (n div 256 mod 256)
        + n mod 256"
    by (simp add: be_nat_def pack_I_def unat_of_nat)
  then show ?thesis
    by (simp only: pack_I_digits)
qed

lemma length_pack [simp]: "length (pack_H n) = 2" "length (pack_I n) = 4" "length (pack_i v) = 4"
  by (simp_all add: pack_H_def pack_I_def pack_i_def)

lemma signed32_pack_i:
  "- (2 ^ 31) \<le> v \<Longrightarrow> v < 2 ^ 31 \<Longrightarrow> signed32 (be_nat (pack_i v)) = v"
proof -
  assume a: "- (2 ^ 31) \<le> v" "v < 2 ^ 31"
  have "nat (v mod 2 ^ 32) < 4294967296"
    by simp
  then have "be_nat (pack_i v) = nat (v mod 2 ^ 32)"
    unfolding pack_i_def by (rule be_nat_pack_I)
  moreover have "signed32 (nat (v mod 2 ^ 32)) = v"
  proof (cases "0 \<le> v")
    case True
    with a have "v mod 2 ^ 32 = v" by simp
    with True a show ?thesis by (simp add: signed32_def)
  next
    case False
    have "v mod 2 ^ 32 = (v + 2 ^ 32) mod 2 ^ 32"
      by simp
    also from a False have "\<dots> = v + 2 ^ 32"
      by (intro mod_pos_pos_trivial) simp_all
    finally have "v mod 2 ^ 32 = v + 2 ^ 32" .
    with False a show ?thesis by (simp add: signed32_def)
  qed
  ultimately show ?thesis by simp
qed

lemma unpack_wire_header:
  "wf_rect r \<Longrightarrow>
   unpack_HHHHi (wire_header r) = Inr (rect_x r, rect_y r, rect_w r, rect_h r, rect_encoding r)"
  by (simp add: unpack_HHHHi_def wire_header_def wf_rect_def be_nat_pack_H signed32_pack_i)

subsection \<open>The row loop\<close>

lemma div4_bounds:
  "(a * 4 \<le> i \<longleftrightarrow> a \<le> i div 4) \<and> (i < b * 4 \<longleftrightarrow> i div 4 < b)" for a b i :: nat
  by auto

lemma row_segment_pixel:
  fixes W rx rw y p :: nat
  assumes "rx + rw \<le> W"
  shows "(y * W + rx \<le> p \<and> p < y * W + rx + rw) \<longleftrightarrow>
         (p div W = y \<and> rx \<le> p mod W \<and> p mod W < rx + rw)"
proof
  assume a: "y * W + rx \<le> p \<and> p < y * W + rx + rw"
  define c where "c = p - y * W"
  with a assms have c: "p = y * W + c" "rx \<le> c" "c < rx + rw" "c < W"
    by linarith+
  from c(4) have "p div W = y" "p mod W = c"
    unfolding c(1) by simp_all
  with c show "p div W = y \<and> rx \<le> p mod W \<and> p mod W < rx + rw"
    by simp
next
  assume b: "p div W = y \<and> rx \<le> p mod W \<and> p mod W < rx + rw"
  have "p = p div W * W + p mod W"
    by simp
  with b have "p = y * W + p mod W"
    by simp
  with b show "y * W + rx \<le> p \<and> p < y * W + rx + rw"
    by linarith
qed

lemma row_segment:
  fixes W rx rw y i :: nat
  assumes "rx + rw \<le> W"
  shows "((y * W + rx) * 4 \<le> i \<and> i < (y * W + rx) * 4 + rw * 4) \<longleftrightarrow>
         (i div 4 div W = y \<and> rx \<le> i div 4 mod W \<and> i div 4 mod W < rx + rw)"
proof -
  have "(y * W + rx) * 4 + rw * 4 = (y * W + rx + rw) * 4"
    by simp
  then have "((y * W + rx) * 4 \<le> i \<and> i < (y * W + rx) * 4 + rw * 4) \<longleftrightarrow>
        (y * W + rx \<le> i div 4 \<and> i div 4 < y * W + rx + rw)"
    using div4_bounds [of "y * W + rx" i "y * W + rx + rw"] by simp
  with row_segment_pixel [OF assms, of y "i div 4"] show ?thesis
    by simp
qed

lemma row_index:
  fixes W rx rw ry k i :: nat
  assumes "i div 4 div W = ry + k" and "rx \<le> i div 4 mod W"
  shows "((i div 4 div W - ry) * rw + (i div 4 mod W - rx)) * 4 + i mod 4
         = k * rw * 4 + (i - ((ry + k) * W + rx) * 4)"
proof -
  have p: "i div 4 = (ry + k) * W + i div 4 mod W"
    using assms(1) div_mult_mod_eq [of "i div 4" W] by simp
  have i: "i = i div 4 * 4 + i mod 4"
    by simp
  define c where "c = i div 4 mod W"
  define m where "m = i mod 4"
  from p i have "i = ((ry + k) * W + c) * 4 + m"
    unfolding c_def m_def by simp
  then have "i - ((ry + k) * W + rx) * 4 = (c - rx) * 4 + m"
    using assms(2) unfolding c_def by (simp add: algebra_simps)
  then show ?thesis
    using assms(1) unfolding c_def m_def by (simp add: algebra_simps)
qed

lemma slice_assign_inside:
  assumes "b = a + length data" and "b \<le> length xs"
  shows "length (slice_assign xs a b data) = length xs"
    and "i < length xs \<Longrightarrow>
         slice_assign xs a b data ! i = (if a \<le> i \<and> i < b then data ! (i - a) else xs ! i)"
proof -
  from assms show "length (slice_assign xs a b data) = length xs"
    by (simp add: slice_assign_def)
  assume i: "i < length xs"
  from assms have m: "max a b = b" and t: "length (take a xs) = a"
    by simp_all
  have sa: "slice_assign xs a b data = take a xs @ (data @ drop b xs)"
    by (simp add: slice_assign_def m)
  show "slice_assign xs a b data ! i = (if a \<le> i \<and> i < b then data ! (i - a) else xs ! i)"
  proof (cases "i < a")
    case True
    with assms t have "slice_assign xs a b data ! i = take a xs ! i"
      unfolding sa by (subst nth_append) simp
    with True show ?thesis
      by simp
  next
    case False
    with t have 1: "slice_assign xs a b data ! i = (data @ drop b xs) ! (i - a)"
      unfolding sa by (subst nth_append) simp
    show ?thesis
    proof (cases "i < b")
      case True
      with False assms have "i - a < length data"
        by simp
      then have "(data @ drop b xs) ! (i - a) = data ! (i - a)"
        by (simp add: nth_append)
      with 1 True False show ?thesis
        by simp
    next
      case nb: False
      with assms have "\<not> i - a < length data" and "i - a - length data = i - b"
        by simp_all
      then have "(data @ drop b xs) ! (i - a) = drop b xs ! (i - b)"
        by (simp add: nth_append)
      also from nb assms i have "\<dots> = xs ! i"
        by simp
      finally show ?thesis
        using 1 nb by simp
    qed
  qed
qed

lemma slice_assign_length_ge:
  "length xs \<le> length (slice_assign xs a (a + length data) data)"
  by (simp add: slice_assign_def)

lemma row_in_data:
  fixes rw rh row :: nat
  assumes "row < rh"
  shows "row * rw * 4 + rw * 4 \<le> rw * rh * 4"
proof -
  from assms have "Suc row \<le> rh" by simp
  then have "Suc row * (rw * 4) \<le> rh * (rw * 4)"
    by (rule mult_le_mono1)
  then show ?thesis by (simp add: algebra_simps)
qed

lemma slice_row:
  assumes "length rect_data = rw * rh * 4" and "row < rh"
  shows "length (py_slice rect_data (row * rw * 4) (row * rw * 4 + rw * 4)) = rw * 4"
    and "j < rw * 4 \<Longrightarrow>
         py_slice rect_data (row * rw * 4) (row * rw * 4 + rw * 4) ! j = rect_data ! (row * rw * 4 + j)"
  using assms row_in_data [OF assms(2), of rw] by (simp_all add: py_slice_def)

lemma copy_row_length_ge:
  assumes "length rect_data = rw * rh * 4" and "row < rh"
  shows "length fb \<le> length (copy_row W rx ry rw rect_data row fb)"
  using slice_assign_length_ge [of fb "((ry + row) * W + rx) * 4"
      "py_slice rect_data (row * rw * 4) (row * rw * 4 + rw * 4)"]
    slice_row(1) [OF assms]
  by (simp add: copy_row_def Let_def)

lemma copy_row_inside:
  assumes d: "length rect_data = rw * rh * 4" and r: "row < rh"
    and x: "rx + rw \<le> W" and y: "ry + rh \<le> H" and l: "length fb = W * H * 4"
  shows "length (copy_row W rx ry rw rect_data row fb) = W * H * 4"
    and "i < W * H * 4 \<Longrightarrow>
         copy_row W rx ry rw rect_data row fb ! i =
           (if i div 4 div W = ry + row \<and> rx \<le> i div 4 mod W \<and> i div 4 mod W < rx + rw
            then rect_data ! (((i div 4 div W - ry) * rw + (i div 4 mod W - rx)) * 4 + i mod 4)
            else fb ! i)"
proof -
  define dst where "dst = ((ry + row) * W + rx) * 4"
  define src where "src = py_slice rect_data (row * rw * 4) (row * rw * 4 + rw * 4)"
  have ls: "length src = rw * 4"
    unfolding src_def by (rule slice_row(1) [OF d r])
  have "(ry + row) * W + (rx + rw) \<le> (ry + row) * W + W"
    using x by simp
  also have "\<dots> = Suc (ry + row) * W"
    by simp
  also have "\<dots> \<le> H * W"
    using r y by (intro mult_le_mono1) simp
  finally have "((ry + row) * W + (rx + rw)) * 4 \<le> H * W * 4"
    by simp
  then have inb: "dst + rw * 4 \<le> length fb"
    using l unfolding dst_def by (simp add: algebra_simps)
  have eq: "dst + rw * 4 = dst + length src"
    using ls by simp
  have c: "copy_row W rx ry rw rect_data row fb = slice_assign fb dst (dst + rw * 4) src"
    by (simp add: copy_row_def Let_def dst_def src_def)
  from slice_assign_inside(1) [OF eq inb] l
  show "length (copy_row W rx ry rw rect_data row fb) = W * H * 4"
    by (simp add: c)
  assume i: "i < W * H * 4"
  with l have i': "i < length fb" by simp
  have seg: "(dst \<le> i \<and> i < dst + rw * 4) \<longleftrightarrow>
      (i div 4 div W = ry + row \<and> rx \<le> i div 4 mod W \<and> i div 4 mod W < rx + rw)"
    unfolding dst_def by (rule row_segment [OF x])
  have w: "copy_row W rx ry rw rect_data row fb ! i =
      (if dst \<le> i \<and> i < dst + rw * 4 then src ! (i - dst) else fb ! i)"
    unfolding c by (rule slice_assign_inside(2) [OF eq inb i'])
  show "copy_row W rx ry rw rect_data row fb ! i =
           (if i div 4 div W = ry + row \<and> rx \<le> i div 4 mod W \<and> i div 4 mod W < rx + rw
            then rect_data ! (((i div 4 div W - ry) * rw + (i div 4 mod W - rx)) * 4 + i mod 4)
            else fb ! i)"
  proof (cases "dst \<le> i \<and> i < dst + rw * 4")
    case True
    then have j: "i - dst < rw * 4"
      by linarith
    from True seg have cv: "i div 4 div W = ry + row" "rx \<le> i div 4 mod W"
      "i div 4 mod W < rx + rw"
      by simp_all
    from w True have "copy_row W rx ry rw rect_data row fb ! i = src ! (i - dst)"
      by simp
    also have "\<dots> = rect_data ! (row * rw * 4 + (i - dst))"
      unfolding src_def by (rule slice_row(2) [OF d r j])
    also have "row * rw * 4 + (i - dst)
        = ((i div 4 div W - ry) * rw + (i div 4 mod W - rx)) * 4 + i mod 4"
      unfolding dst_def by (rule row_index [OF cv(1) cv(2), symmetric])
    finally show ?thesis
      using cv by simp
  next
    case False
    from False seg
    have nc: "\<not> (i div 4 div W = ry + row \<and> rx \<le> i div 4 mod W \<and> i div 4 mod W < rx + rw)"
      by simp
    have "copy_row W rx ry rw rect_data row fb ! i = fb ! i"
      unfolding w by (rule if_not_P [OF False])
    then show ?thesis
      unfolding if_not_P [OF nc] .
  qed
qed

subsection \<open>One rectangle, a list of rectangles\<close>

lemma copy_rect_Suc:
  "fold (copy_row W rx ry rw rect_data) [0..<Suc k] fb
     = copy_row W rx ry rw rect_data k (fold (copy_row W rx ry rw rect_data) [0..<k] fb)"
  by simp

lemma copy_rows_length_ge:
  assumes "length rect_data = rw * rh * 4"
  shows "k \<le> rh \<Longrightarrow> length fb \<le> length (fold (copy_row W rx ry rw rect_data) [0..<k] fb)"
proof (induction k)
  case 0
  show ?case by simp
next
  case (Suc k)
  then have "k < rh" and "k \<le> rh" by simp_all
  from copy_row_length_ge [OF assms \<open>k < rh\<close>] Suc.IH [OF \<open>k \<le> rh\<close>]
  show ?case
    unfolding copy_rect_Suc by (rule order_trans [rotated])
qed

lemma copy_rect_length_ge:
  "length rect_data = rw * rh * 4 \<Longrightarrow>
   length fb \<le> length (copy_rect W fb rx ry rw rh rect_data)"
  unfolding copy_rect_def using copy_rows_length_ge [where k = rh and rh = rh] by simp

lemma copy_rows_inside:
  assumes d: "length rect_data = rw * rh * 4"
    and x: "rx + rw \<le> W" and y: "ry + rh \<le> H" and l: "length fb = W * H * 4"
  shows "k \<le> rh \<Longrightarrow>
     length (fold (copy_row W rx ry rw rect_data) [0..<k] fb) = W * H * 4
     \<and> (\<forall>i<W * H * 4. fold (copy_row W rx ry rw rect_data) [0..<k] fb ! i =
           (if rx \<le> i div 4 mod W \<and> i div 4 mod W < rx + rw
               \<and> ry \<le> i div 4 div W \<and> i div 4 div W < ry + k
            then rect_data ! (((i div 4 div W - ry) * rw + (i div 4 mod W - rx)) * 4 + i mod 4)
            else fb ! i))"
proof (induction k)
  case 0
  from l show ?case by auto
next
  case (Suc k)
  then have k: "k < rh" and "k \<le> rh" by simp_all
  define fbk where "fbk = fold (copy_row W rx ry rw rect_data) [0..<k] fb"
  from Suc.IH [OF \<open>k \<le> rh\<close>] have lk: "length fbk = W * H * 4"
    and nk: "\<And>i. i < W * H * 4 \<Longrightarrow> fbk ! i =
           (if rx \<le> i div 4 mod W \<and> i div 4 mod W < rx + rw
               \<and> ry \<le> i div 4 div W \<and> i div 4 div W < ry + k
            then rect_data ! (((i div 4 div W - ry) * rw + (i div 4 mod W - rx)) * 4 + i mod 4)
            else fb ! i)"
    unfolding fbk_def by simp_all
  have step: "fold (copy_row W rx ry rw rect_data) [0..<Suc k] fb
      = copy_row W rx ry rw rect_data k fbk"
    unfolding fbk_def by (rule copy_rect_Suc)
  have "length (copy_row W rx ry rw rect_data k fbk) = W * H * 4"
    by (rule copy_row_inside(1) [OF d k x y lk])
  moreover have "copy_row W rx ry rw rect_data k fbk ! i =
           (if rx \<le> i div 4 mod W \<and> i div 4 mod W < rx + rw
               \<and> ry \<le> i div 4 div W \<and> i div 4 div W < ry + Suc k
            then rect_data ! (((i div 4 div W - ry) * rw + (i div 4 mod W - rx)) * 4 + i mod 4)
            else fb ! i)" if i: "i < W * H * 4" for i
  proof (cases "i div 4 div W = ry + k \<and> rx \<le> i div 4 mod W \<and> i div 4 mod W < rx + rw")
    case True
    with copy_row_inside(2) [OF d k x y lk i] show ?thesis
      by simp
  next
    case False
    with copy_row_inside(2) [OF d k x y lk i]
    have "copy_row W rx ry rw rect_data k fbk ! i = fbk ! i"
      by (simp only: if_False)
    also note nk [OF i]
    also from False have "(rx \<le> i div 4 mod W \<and> i div 4 mod W < rx + rw
               \<and> ry \<le> i div 4 div W \<and> i div 4 div W < ry + k)
        \<longleftrightarrow> (rx \<le> i div 4 mod W \<and> i div 4 mod W < rx + rw
               \<and> ry \<le> i div 4 div W \<and> i div 4 div W < ry + Suc k)"
      by auto
    finally show ?thesis .
  qed
  ultimately show ?case
    unfolding step by blast
qed

lemma copy_rect_inside:
  assumes "wf_rect r" and "is_raw r" and "in_display W H r" and "length fb = W * H * 4"
  shows "length (copy_rect W fb (rect_x r) (rect_y r) (rect_w r) (rect_h r) (rect_payload r))
           = W * H * 4"
    and "i < W * H * 4 \<Longrightarrow>
         copy_rect W fb (rect_x r) (rect_y r) (rect_w r) (rect_h r) (rect_payload r) ! i
           = (if covers W r i then rect_byte W r i else fb ! i)"
proof -
  from assms have d: "length (rect_payload r) = rect_w r * rect_h r * 4"
    and x: "rect_x r + rect_w r \<le> W" and y: "rect_y r + rect_h r \<le> H"
    by (simp_all add: wf_rect_def in_display_def)
  note * = copy_rows_inside [OF d x y assms(4), of "rect_h r", OF order_refl]
  from * show "length (copy_rect W fb (rect_x r) (rect_y r) (rect_w r) (rect_h r) (rect_payload r))
           = W * H * 4"
    by (simp add: copy_rect_def)
  assume "i < W * H * 4"
  with * show "copy_rect W fb (rect_x r) (rect_y r) (rect_w r) (rect_h r) (rect_payload r) ! i
           = (if covers W r i then rect_byte W r i else fb ! i)"
    by (simp add: copy_rect_def covers_def rect_byte_def)
qed

lemma composite_snoc:
  "composite W (rs @ [r]) fb
     = copy_rect W (composite W rs fb) (rect_x r) (rect_y r) (rect_w r) (rect_h r) (rect_payload r)"
  by (simp add: composite_def)

lemma placed_snoc:
  "placed W (rs @ [r]) fb i = (if covers W r i then rect_byte W r i else placed W rs fb i)"
  by (simp add: placed_def)

lemma composite_length_ge:
  "\<forall>r\<in>set rs. length (rect_payload r) = rect_w r * rect_h r * 4 \<Longrightarrow>
   length fb \<le> length (composite W rs fb)"
proof (induction rs rule: rev_induct)
  case Nil
  show ?case by (simp add: composite_def)
next
  case (snoc r rs)
  then have "length fb \<le> length (composite W rs fb)"
    and "length (rect_payload r) = rect_w r * rect_h r * 4"
    by simp_all
  with copy_rect_length_ge [of "rect_payload r" "rect_w r" "rect_h r" "composite W rs fb" W
      "rect_x r" "rect_y r"]
  show ?case
    unfolding composite_snoc by simp
qed

lemma composite_placed:
  assumes "length fb = W * H * 4"
  shows "\<forall>r\<in>set rs. wf_rect r \<and> is_raw r \<and> in_display W H r \<Longrightarrow>
     length (composite W rs fb) = W * H * 4
     \<and> (\<forall>i<W * H * 4. composite W rs fb ! i = placed W rs fb i)"
proof (induction rs rule: rev_induct)
  case Nil
  from assms show ?case by (simp add: composite_def placed_def)
next
  case (snoc r rs)
  then have r: "wf_rect r" "is_raw r" "in_display W H r"
    and l: "length (composite W rs fb) = W * H * 4"
    and n: "\<And>i. i < W * H * 4 \<Longrightarrow> composite W rs fb ! i = placed W rs fb i"
    by simp_all
  from copy_rect_inside(1) [OF r l] copy_rect_inside(2) [OF r l] n
  show ?case
    unfolding composite_snoc placed_snoc by simp
qed

subsection \<open>The rectangle loops on a well-formed update\<close>

lemma length_wire_header [simp]: "length (wire_header r) = 12"
  by (simp add: wire_header_def)

lemma composite_Cons:
  "composite W (r # rs) fb
     = composite W rs (copy_rect W fb (rect_x r) (rect_y r) (rect_w r) (rect_h r) (rect_payload r))"
  by (simp add: composite_def)

lemma read_header:
  assumes "wf_rect r" and "concat s = wire_header r @ rest"
  shows "\<exists>s1. recv_exact 12 s = Inr (wire_header r, s1) \<and> concat s1 = rest
           \<and> unpack_HHHHi (wire_header r)
               = Inr (rect_x r, rect_y r, rect_w r, rect_h r, rect_encoding r)"
  using recv_exact_prefix [OF assms(2)] unpack_wire_header [OF assms(1)] by simp

lemma read_payload:
  assumes "wf_rect r" and "is_raw r" and "concat s1 = rect_payload r @ rest"
  shows "\<exists>s2. recv_exact (rect_w r * rect_h r * 4) s1 = Inr (rect_payload r, s2) \<and> concat s2 = rest"
proof -
  from assms(1,2) have "length (rect_payload r) = rect_w r * rect_h r * 4"
    by (simp add: wf_rect_def)
  with recv_exact_prefix [OF assms(3)] show ?thesis
    by simp
qed

lemma tool_rects_raw_step:
  assumes "wf_rect r" and "is_raw r" and "concat s = wire_rect r @ rest"
  shows "\<exists>s2. tool_rects (Suc n) W fb s
                = tool_rects n W (copy_rect W fb (rect_x r) (rect_y r) (rect_w r) (rect_h r)
                    (rect_payload r)) s2
             \<and> concat s2 = rest"
proof -
  from assms(3) have "concat s = wire_header r @ (rect_payload r @ rest)"
    by (simp add: wire_rect_def)
  from read_header [OF assms(1) this] obtain s1 where
    h: "recv_exact 12 s = Inr (wire_header r, s1)" "concat s1 = rect_payload r @ rest"
      "unpack_HHHHi (wire_header r) = Inr (rect_x r, rect_y r, rect_w r, rect_h r, rect_encoding r)"
    by blast
  from read_payload [OF assms(1,2) h(2)] obtain s2 where
    p: "recv_exact (rect_w r * rect_h r * 4) s1 = Inr (rect_payload r, s2)" "concat s2 = rest"
    by blast
  from assms(2) have "rect_encoding r = 0"
    by (simp add: is_raw_def)
  with h p have "tool_rects (Suc n) W fb s
      = tool_rects n W (copy_rect W fb (rect_x r) (rect_y r) (rect_w r) (rect_h r)
          (rect_payload r)) s2"
    by simp
  with p(2) show ?thesis by blast
qed

lemma conn_rects_raw_step:
  assumes "wf_rect r" and "is_raw r" and "concat s = wire_rect r @ rest"
  shows "\<exists>s2. conn_rects (Suc n) W fb s
                = conn_rects n W (copy_rect W fb (rect_x r) (rect_y r) (rect_w r) (rect_h r)
                    (rect_payload r)) s2
             \<and> concat s2 = rest"
proof -
  from assms(3) have "concat s = wire_header r @ (rect_payload r @ rest)"
    by (simp add: wire_rect_def)
  from read_header [OF assms(1) this] obtain s1 where
    h: "recv_exact 12 s = Inr (wire_header r, s1)" "concat s1 = rect_payload r @ rest"
      "unpack_HHHHi (wire_header r) = Inr (rect_x r, rect_y r, rect_w r, rect_h r, rect_encoding r)"
    by blast
  from read_payload [OF assms(1,2) h(2)] obtain s2 where
    p: "recv_exact (rect_w r * rect_h r * 4) s1 = Inr (rect_payload r, s2)" "concat s2 = rest"
    by blast
  from assms(2) have "rect_encoding r = 0"
    by (simp add: is_raw_def)
  with h p have "conn_rects (Suc n) W fb s
      = conn_rects n W (copy_rect W fb (rect_x r) (rect_y r) (rect_w r) (rect_h r)
          (rect_payload r)) s2"
    by simp
  with p(2) show ?thesis by blast
qed

lemma tool_rects_other_step:
  assumes "wf_rect r" and "\<not> is_raw r" and "concat s = wire_rect r @ rest"
  shows "\<exists>s1. tool_rects (Suc n) W fb s = Inr (fb, s1) \<and> concat s1 = rect_payload r @ rest"
proof -
  from assms(3) have "concat s = wire_header r @ (rect_payload r @ rest)"
    by (simp add: wire_rect_def)
  from read_header [OF assms(1) this] obtain s1 where
    h: "recv_exact 12 s = Inr (wire_header r, s1)" "concat s1 = rect_payload r @ rest"
      "unpack_HHHHi (wire_header r) = Inr (rect_x r, rect_y r, rect_w r, rect_h r, rect_encoding r)"
    by blast
  from assms(2) have "rect_encoding r \<noteq> 0"
    by (simp add: is_raw_def)
  with h have "tool_rects (Suc n) W fb s = Inr (fb, s1)"
    by simp
  with h(2) show ?thesis by blast
qed

lemma conn_rects_other_step:
  assumes "wf_rect r" and "\<not> is_raw r" and "concat s = wire_rect r @ rest"
  shows "\<exists>s1. conn_rects (Suc n) W fb s = conn_rects n W fb s1
             \<and> concat s1 = rect_payload r @ rest"
proof -
  from assms(3) have "concat s = wire_header r @ (rect_payload r @ rest)"
    by (simp add: wire_rect_def)
  from read_header [OF assms(1) this] obtain s1 where
    h: "recv_exact 12 s = Inr (wire_header r, s1)" "concat s1 = rect_payload r @ rest"
      "unpack_HHHHi (wire_header r) = Inr (rect_x r, rect_y r, rect_w r, rect_h r, rect_encoding r)"
    by blast
  from assms(2) have "rect_encoding r \<noteq> 0"
    by (simp add: is_raw_def)
  with h have "conn_rects (Suc n) W fb s = conn_rects n W fb s1"
    by simp
  with h(2) show ?thesis by blast
qed

lemma tool_rects_wire:
  "\<forall>r\<in>set rs. wf_rect r \<Longrightarrow> concat s = concat (map wire_rect rs) @ rest \<Longrightarrow>
   \<exists>s'. tool_rects (length rs) W fb s = Inr (composite W (takeWhile is_raw rs) fb, s')
        \<and> concat s' = unread rs @ rest"
proof (induction rs arbitrary: fb s)
  case Nil
  then show ?case by (simp add: composite_def unread_def)
next
  case (Cons r rs)
  then have wf: "wf_rect r" and wfs: "\<forall>r\<in>set rs. wf_rect r"
    and c: "concat s = wire_rect r @ (concat (map wire_rect rs) @ rest)"
    by simp_all
  show ?case
  proof (cases "is_raw r")
    case True
    from tool_rects_raw_step [OF wf True c] obtain s2 where
      s2: "tool_rects (Suc (length rs)) W fb s
             = tool_rects (length rs) W (copy_rect W fb (rect_x r) (rect_y r) (rect_w r)
                 (rect_h r) (rect_payload r)) s2"
        "concat s2 = concat (map wire_rect rs) @ rest"
      by blast
    from Cons.IH [OF wfs s2(2)] s2(1) True show ?thesis
      by (simp del: tool_rects.simps add: composite_Cons unread_def)
  next
    case False
    from tool_rects_other_step [OF wf False c, of "length rs" W fb] False show ?thesis
      by (simp del: tool_rects.simps add: composite_def unread_def)
  qed
qed

lemma conn_rects_wire:
  "\<forall>r\<in>set rs. wf_rect r \<and> (\<not> is_raw r \<longrightarrow> rect_payload r = []) \<Longrightarrow>
   concat s = concat (map wire_rect rs) @ rest \<Longrightarrow>
   \<exists>s'. conn_rects (length rs) W fb s = Inr (composite W (filter is_raw rs) fb, s')
        \<and> concat s' = rest"
proof (induction rs arbitrary: fb s)
  case Nil
  then show ?case by (simp add: composite_def)
next
  case (Cons r rs)
  then have wf: "wf_rect r" and e: "\<not> is_raw r \<longrightarrow> rect_payload r = []"
    and wfs: "\<forall>r\<in>set rs. wf_rect r \<and> (\<not> is_raw r \<longrightarrow> rect_payload r = [])"
    and c: "concat s = wire_rect r @ (concat (map wire_rect rs) @ rest)"
    by simp_all
  show ?case
  proof (cases "is_raw r")
    case True
    from conn_rects_raw_step [OF wf True c] obtain s2 where
      s2: "conn_rects (Suc (length rs)) W fb s
             = conn_rects (length rs) W (copy_rect W fb (rect_x r) (rect_y r) (rect_w r)
                 (rect_h r) (rect_payload r)) s2"
        "concat s2 = concat (map wire_rect rs) @ rest"
      by blast
    from Cons.IH [OF wfs s2(2)] s2(1) True show ?thesis
      by (simp del: conn_rects.simps add: composite_Cons)
  next
    case False
    from e False have pe: "rect_payload r = []"
      by simp
    from conn_rects_other_step [OF wf False c, of "length rs" W fb] obtain s1 where
      s1: "conn_rects (Suc (length rs)) W fb s = conn_rects (length rs) W fb s1"
        "concat s1 = rect_payload r @ (concat (map wire_rect rs) @ rest)"
      by blast
    from s1(2) pe have "concat s1 = concat (map wire_rect rs) @ rest"
      by simp
    from Cons.IH [OF wfs this] s1(1) False show ?thesis
      by (simp del: conn_rects.simps)
  qed
qed

subsection \<open>The receive loops on a well-formed stream\<close>

lemma unpack_B_single: "unpack_B [b] = Inr (unat b)"
  by (simp add: unpack_B_def be_nat_def)

lemma unpack_H_pack_H: "n < 65536 \<Longrightarrow> unpack_H (pack_H n) = Inr n"
  by (simp add: unpack_H_def be_nat_pack_H)

lemma unpack_I_pack_I: "n < 4294967296 \<Longrightarrow> unpack_I (pack_I n) = Inr n"
  by (simp add: unpack_I_def be_nat_pack_I)

lemma recv_exact_n:
  "concat s = d @ rest \<Longrightarrow> length d = n \<Longrightarrow>
   \<exists>s'. recv_exact n s = Inr (d, s') \<and> concat s' = rest"
  using recv_exact_prefix by blast

lemma recv_exact_1:
  "concat s = b # rest \<Longrightarrow> \<exists>s'. recv_exact 1 s = Inr ([b], s') \<and> concat s' = rest"
  using recv_exact_n [of s "[b]" rest 1] by simp

lemma recv_exact_2:
  "concat s = pack_H n @ rest \<Longrightarrow> \<exists>s'. recv_exact 2 s = Inr (pack_H n, s') \<and> concat s' = rest"
  using recv_exact_n [of s "pack_H n" rest 2] by simp

lemma tool_receive_update:
  assumes "n < 65536" and "concat s = [0, pad] @ pack_H n @ body"
  shows "\<exists>s'. tool_receive W fb s = tool_rects n W fb s' \<and> concat s' = body"
proof -
  from assms(2) have "concat s = 0 # (pad # (pack_H n @ body))"
    by simp
  from recv_exact_1 [OF this] obtain s1 where
    1: "recv_exact 1 s = Inr ([0], s1)" "concat s1 = pad # (pack_H n @ body)"
    by blast
  from recv_exact_1 [OF 1(2)] obtain s2 where
    2: "recv_exact 1 s1 = Inr ([pad], s2)" "concat s2 = pack_H n @ body"
    by blast
  from recv_exact_2 [OF 2(2)] obtain s3 where
    3: "recv_exact 2 s2 = Inr (pack_H n, s3)" "concat s3 = body"
    by blast
  have "tool_receive W fb s = tool_rects n W fb s3"
    by (subst tool_receive.simps)
      (simp del: tool_receive.simps One_nat_def add: 1 2 3 unpack_B_single unpack_H_pack_H [OF assms(1)])
  with 3(2) show ?thesis by blast
qed

lemma conn_receive_update:
  assumes "n < 65536" and "concat s = [0, pad] @ pack_H n @ body"
  shows "\<exists>s'. conn_receive W fb s = conn_rects n W fb s' \<and> concat s' = body"
proof -
  from assms(2) have "concat s = 0 # (pad # (pack_H n @ body))"
    by simp
  from recv_exact_1 [OF this] obtain s1 where
    1: "recv_exact 1 s = Inr ([0], s1)" "concat s1 = pad # (pack_H n @ body)"
    by blast
  from recv_exact_1 [OF 1(2)] obtain s2 where
    2: "recv_exact 1 s1 = Inr ([pad], s2)" "concat s2 = pack_H n @ body"
    by blast
  from recv_exact_2 [OF 2(2)] obtain s3 where
    3: "recv_exact 2 s2 = Inr (pack_H n, s3)" "concat s3 = body"
    by blast
  have "conn_receive W fb s = conn_rects n W fb s3"
    by (subst conn_receive.simps)
      (simp del: conn_receive.simps One_nat_def add: 1 2 3 unpack_B_single unpack_H_pack_H [OF assms(1)])
  with 3(2) show ?thesis by blast
qed

lemma tool_receive_skip:
  assumes "wf_other m" and "concat s = wire_other m @ body"
  shows "\<exists>s'. tool_receive W fb s = tool_receive W fb s' \<and> concat s' = body"
proof (cases m)
  case (SetColorMapEntries first rgb)
  with assms have f: "first < 65536" and c: "length rgb div 6 < 65536"
    and m6: "length rgb mod 6 = 0"
    and cs: "concat s = 1 # (0 # (pack_H first @ (pack_H (length rgb div 6) @ (rgb @ body))))"
    by simp_all
  from m6 have l: "length rgb = length rgb div 6 * 6"
    by presburger
  from recv_exact_1 [OF cs] obtain s1 where
    1: "recv_exact 1 s = Inr ([1], s1)"
      "concat s1 = 0 # (pack_H first @ (pack_H (length rgb div 6) @ (rgb @ body)))"
    by blast
  from recv_exact_1 [OF 1(2)] obtain s2 where
    2: "recv_exact 1 s1 = Inr ([0], s2)"
      "concat s2 = pack_H first @ (pack_H (length rgb div 6) @ (rgb @ body))"
    by blast
  from recv_exact_2 [OF 2(2)] obtain s3 where
    3: "recv_exact 2 s2 = Inr (pack_H first, s3)"
      "concat s3 = pack_H (length rgb div 6) @ (rgb @ body)"
    by blast
  from recv_exact_2 [OF 3(2)] obtain s4 where
    4: "recv_exact 2 s3 = Inr (pack_H (length rgb div 6), s4)" "concat s4 = rgb @ body"
    by blast
  from recv_exact_prefix [OF 4(2)] l obtain s5 where
    5: "recv_exact (length rgb div 6 * 6) s4 = Inr (rgb, s5)" "concat s5 = body"
    by auto
  have "tool_receive W fb s = tool_receive W fb s5"
    by (subst tool_receive.simps)
      (simp del: tool_receive.simps One_nat_def
        add: 1 2 3 4 5 unpack_B_single unpack_H_pack_H [OF f] unpack_H_pack_H [OF c])
  with 5(2) show ?thesis by blast
next
  case Bell
  with assms have "concat s = 2 # body"
    by simp
  from recv_exact_1 [OF this] obtain s1 where
    1: "recv_exact 1 s = Inr ([2], s1)" "concat s1 = body"
    by blast
  have "tool_receive W fb s = tool_receive W fb s1"
    by (subst tool_receive.simps) (simp del: tool_receive.simps One_nat_def add: 1 unpack_B_single)
  with 1(2) show ?thesis by blast
next
  case (ServerCutText cut)
  with assms have t: "length cut < 4294967296"
    and "concat s = 3 # ([0, 0, 0] @ (pack_I (length cut) @ (cut @ body)))"
    by simp_all
  from recv_exact_1 [OF this(2)] obtain s1 where
    1: "recv_exact 1 s = Inr ([3], s1)"
      "concat s1 = [0, 0, 0] @ (pack_I (length cut) @ (cut @ body))"
    by blast
  from recv_exact_n [OF 1(2), of 3] obtain s2 where
    2: "recv_exact 3 s1 = Inr ([0, 0, 0], s2)" "concat s2 = pack_I (length cut) @ (cut @ body)"
    by auto
  from recv_exact_n [OF 2(2), of 4] obtain s3 where
    3: "recv_exact 4 s2 = Inr (pack_I (length cut), s3)" "concat s3 = cut @ body"
    by auto
  from recv_exact_prefix [OF 3(2)] obtain s4 where
    4: "recv_exact (length cut) s3 = Inr (cut, s4)" "concat s4 = body"
    by auto
  have "tool_receive W fb s = tool_receive W fb s4"
    by (subst tool_receive.simps)
      (simp del: tool_receive.simps One_nat_def add: 1 2 3 4 unpack_B_single unpack_I_pack_I [OF t])
  with 4(2) show ?thesis by blast
qed

lemma conn_receive_skip:
  assumes "wf_other m" and "concat s = wire_other m @ body"
  shows "\<exists>s'. conn_receive W fb s = conn_receive W fb s' \<and> concat s' = body"
proof (cases m)
  case (SetColorMapEntries first rgb)
  with assms have f: "first < 65536" and c: "length rgb div 6 < 65536"
    and m6: "length rgb mod 6 = 0"
    and cs: "concat s = 1 # (0 # (pack_H first @ (pack_H (length rgb div 6) @ (rgb @ body))))"
    by simp_all
  from m6 have l: "length rgb = length rgb div 6 * 6"
    by presburger
  from recv_exact_1 [OF cs] obtain s1 where
    1: "recv_exact 1 s = Inr ([1], s1)"
      "concat s1 = 0 # (pack_H first @ (pack_H (length rgb div 6) @ (rgb @ body)))"
    by blast
  from recv_exact_1 [OF 1(2)] obtain s2 where
    2: "recv_exact 1 s1 = Inr ([0], s2)"
      "concat s2 = pack_H first @ (pack_H (length rgb div 6) @ (rgb @ body))"
    by blast
  from recv_exact_2 [OF 2(2)] obtain s3 where
    3: "recv_exact 2 s2 = Inr (pack_H first, s3)"
      "concat s3 = pack_H (length rgb div 6) @ (rgb @ body)"
    by blast
  from recv_exact_2 [OF 3(2)] obtain s4 where
    4: "recv_exact 2 s3 = Inr (pack_H (length rgb div 6), s4)" "concat s4 = rgb @ body"
    by blast
  from recv_exact_prefix [OF 4(2)] l obtain s5 where
    5: "recv_exact (length rgb div 6 * 6) s4 = Inr (rgb, s5)" "concat s5 = body"
    by auto
  have "conn_receive W fb s = conn_receive W fb s5"
    by (subst conn_receive.simps)
      (simp del: conn_receive.simps One_nat_def
        add: 1 2 3 4 5 unpack_B_single unpack_H_pack_H [OF f] unpack_H_pack_H [OF c])
  with 5(2) show ?thesis by blast
next
  case Bell
  with assms have "concat s = 2 # body"
    by simp
  from recv_exact_1 [OF this] obtain s1 where
    1: "recv_exact 1 s = Inr ([2], s1)" "concat s1 = body"
    by blast
  have "conn_receive W fb s = conn_receive W fb s1"
    by (subst conn_receive.simps) (simp del: conn_receive.simps One_nat_def add: 1 unpack_B_single)
  with 1(2) show ?thesis by blast
next
  case (ServerCutText cut)
  with assms have t: "length cut < 4294967296"
    and "concat s = 3 # ([0, 0, 0] @ (pack_I (length cut) @ (cut @ body)))"
    by simp_all
  from recv_exact_1 [OF this(2)] obtain s1 where
    1: "recv_exact 1 s = Inr ([3], s1)"
      "concat s1 = [0, 0, 0] @ (pack_I (length cut) @ (cut @ body))"
    by blast
  from recv_exact_n [OF 1(2), of 3] obtain s2 where
    2: "recv_exact 3 s1 = Inr ([0, 0, 0], s2)" "concat s2 = pack_I (length cut) @ (cut @ body)"
    by auto
  from recv_exact_n [OF 2(2), of 4] obtain s3 where
    3: "recv_exact 4 s2 = Inr (pack_I (length cut), s3)" "concat s3 = cut @ body"
    by auto
  from recv_exact_prefix [OF 3(2)] obtain s4 where
    4: "recv_exact (length cut) s3 = Inr (cut, s4)" "concat s4 = body"
    by auto
  have "conn_receive W fb s = conn_receive W fb s4"
    by (subst conn_receive.simps)
      (simp del: conn_receive.simps One_nat_def add: 1 2 3 4 unpack_B_single unpack_I_pack_I [OF t])
  with 4(2) show ?thesis by blast
qed


lemma tool_receive_skips:
  "\<forall>m\<in>set ms. wf_other m \<Longrightarrow> concat s = concat (map wire_other ms) @ body \<Longrightarrow>
   \<exists>s'. tool_receive W fb s = tool_receive W fb s' \<and> concat s' = body"
proof (induction ms arbitrary: s)
  case Nil
  then show ?case by auto
next
  case (Cons m ms)
  then have "wf_other m" and "concat s = wire_other m @ (concat (map wire_other ms) @ body)"
    by simp_all
  from tool_receive_skip [OF this, of W fb] obtain s1 where
    s1: "tool_receive W fb s = tool_receive W fb s1" "concat s1 = concat (map wire_other ms) @ body"
    by blast
  from Cons.prems have "\<forall>m\<in>set ms. wf_other m"
    by simp
  from Cons.IH [OF this s1(2)] s1(1) show ?case
    by (simp del: tool_receive.simps)
qed

lemma conn_receive_skips:
  "\<forall>m\<in>set ms. wf_other m \<Longrightarrow> concat s = concat (map wire_other ms) @ body \<Longrightarrow>
   \<exists>s'. conn_receive W fb s = conn_receive W fb s' \<and> concat s' = body"
proof (induction ms arbitrary: s)
  case Nil
  then show ?case by auto
next
  case (Cons m ms)
  then have "wf_other m" and "concat s = wire_other m @ (concat (map wire_other ms) @ body)"
    by simp_all
  from conn_receive_skip [OF this, of W fb] obtain s1 where
    s1: "conn_receive W fb s = conn_receive W fb s1" "concat s1 = concat (map wire_other ms) @ body"
    by blast
  from Cons.prems have "\<forall>m\<in>set ms. wf_other m"
    by simp
  from Cons.IH [OF this s1(2)] s1(1) show ?case
    by (simp del: conn_receive.simps)
qed

text \<open>
  A stream that holds skipped messages and then a FramebufferUpdate of well-formed
  rectangles: what each receive loop returns and what it leaves on the stream.
\<close>

lemma tool_receive_stream:
  assumes "\<forall>m\<in>set ms. wf_other m" and "\<forall>r\<in>set rs. wf_rect r" and "length rs < 65536"
    and "concat s = concat (map wire_other ms) @ wire_update rs @ rest"
  shows "\<exists>s'. tool_receive W fb s = Inr (composite W (takeWhile is_raw rs) fb, s')
              \<and> concat s' = unread rs @ rest"
proof -
  from tool_receive_skips [OF assms(1,4), of W fb] obtain s1 where
    s1: "tool_receive W fb s = tool_receive W fb s1" "concat s1 = wire_update rs @ rest"
    by blast
  from s1(2) have "concat s1 = [0, 0] @ pack_H (length rs) @ (concat (map wire_rect rs) @ rest)"
    by (simp add: wire_update_def)
  from tool_receive_update [OF assms(3) this, of W fb] obtain s2 where
    s2: "tool_receive W fb s1 = tool_rects (length rs) W fb s2"
      "concat s2 = concat (map wire_rect rs) @ rest"
    by blast
  from tool_rects_wire [OF assms(2) s2(2), of W fb] s1(1) s2(1) show ?thesis
    by (simp del: tool_receive.simps)
qed

lemma conn_receive_stream:
  assumes "\<forall>m\<in>set ms. wf_other m"
    and "\<forall>r\<in>set rs. wf_rect r \<and> (\<not> is_raw r \<longrightarrow> rect_payload r = [])"
    and "length rs < 65536"
    and "concat s = concat (map wire_other ms) @ wire_update rs @ rest"
  shows "\<exists>s'. conn_receive W fb s = Inr (composite W (filter is_raw rs) fb, s')
              \<and> concat s' = rest"
proof -
  from conn_receive_skips [OF assms(1,4), of W fb] obtain s1 where
    s1: "conn_receive W fb s = conn_receive W fb s1" "concat s1 = wire_update rs @ rest"
    by blast
  from s1(2) have "concat s1 = [0, 0] @ pack_H (length rs) @ (concat (map wire_rect rs) @ rest)"
    by (simp add: wire_update_def)
  from conn_receive_update [OF assms(3) this, of W fb] obtain s2 where
    s2: "conn_receive W fb s1 = conn_rects (length rs) W fb s2"
      "concat s2 = concat (map wire_rect rs) @ rest"
    by blast
  from conn_rects_wire [OF assms(2) s2(2), of W fb] s1(1) s2(1) show ?thesis
    by (simp del: conn_receive.simps)
qed

subsection \<open>The buffer never shrinks\<close>

lemma tool_rects_length_ge:
  "tool_rects n W fb s = Inr (fb', s') \<Longrightarrow> length fb \<le> length fb'"
proof (induction n arbitrary: fb s)
  case 0
  then show ?case by simp
next
  case (Suc n)
  show ?case
  proof (cases "recv_exact 12 s")
    case (Inl e)
    with Suc.prems show ?thesis by simp
  next
    case (Inr a)
    obtain hdr s1 where a: "a = (hdr, s1)" by (cases a)
    show ?thesis
    proof (cases "unpack_HHHHi hdr")
      case (Inl e)
      with Suc.prems Inr a show ?thesis by simp
    next
      case u: (Inr b)
      obtain rx ry rw rh encoding where b: "b = (rx, ry, rw, rh, encoding)"
        by (cases b)
      show ?thesis
      proof (cases "encoding = 0")
        case False
        with Suc.prems Inr a u b show ?thesis by simp
      next
        case True
        show ?thesis
        proof (cases "recv_exact (rw * rh * 4) s1")
          case (Inl e)
          with Suc.prems Inr a u b True show ?thesis by simp
        next
          case p: (Inr c)
          obtain rect_data s2 where c: "c = (rect_data, s2)" by (cases c)
          from p c recv_exact_concat have "length rect_data = rw * rh * 4"
            by blast
          then have "length fb \<le> length (copy_rect W fb rx ry rw rh rect_data)"
            by (rule copy_rect_length_ge)
          moreover from Suc.prems Inr a u b True p c
          have "tool_rects n W (copy_rect W fb rx ry rw rh rect_data) s2 = Inr (fb', s')"
            by simp
          then have "length (copy_rect W fb rx ry rw rh rect_data) \<le> length fb'"
            by (rule Suc.IH)
          ultimately show ?thesis by simp
        qed
      qed
    qed
  qed
qed

lemma conn_rects_length_ge:
  "conn_rects n W fb s = Inr (fb', s') \<Longrightarrow> length fb \<le> length fb'"
proof (induction n arbitrary: fb s)
  case 0
  then show ?case by simp
next
  case (Suc n)
  show ?case
  proof (cases "recv_exact 12 s")
    case (Inl e)
    with Suc.prems show ?thesis by simp
  next
    case (Inr a)
    obtain hdr s1 where a: "a = (hdr, s1)" by (cases a)
    show ?thesis
    proof (cases "unpack_HHHHi hdr")
      case (Inl e)
      with Suc.prems Inr a show ?thesis by simp
    next
      case u: (Inr b)
      obtain rx ry rw rh encoding where b: "b = (rx, ry, rw, rh, encoding)"
        by (cases b)
      show ?thesis
      proof (cases "encoding = 0")
        case False
        with Suc.prems Inr a u b have "conn_rects n W fb s1 = Inr (fb', s')"
          by simp
        then show ?thesis by (rule Suc.IH)
      next
        case True
        show ?thesis
        proof (cases "recv_exact (rw * rh * 4) s1")
          case (Inl e)
          with Suc.prems Inr a u b True show ?thesis by simp
        next
          case p: (Inr c)
          obtain rect_data s2 where c: "c = (rect_data, s2)" by (cases c)
          from p c recv_exact_concat have "length rect_data = rw * rh * 4"
            by blast
          then have "length fb \<le> length (copy_rect W fb rx ry rw rh rect_data)"
            by (rule copy_rect_length_ge)
          moreover from Suc.prems Inr a u b True p c
          have "conn_rects n W (copy_rect W fb rx ry rw rh rect_data) s2 = Inr (fb', s')"
            by simp
          then have "length (copy_rect W fb rx ry rw rh rect_data) \<le> length fb'"
            by (rule Suc.IH)
          ultimately show ?thesis by simp
        qed
      qed
    qed
  qed
qed

lemma tool_receive_cases:
  assumes "tool_receive W fb s = Inr (fb', s')"
  shows "(\<exists>n s3. tool_rects n W fb s3 = Inr (fb', s'))
       \<or> (\<exists>s1. length (concat s1) < length (concat s) \<and> tool_receive W fb s1 = Inr (fb', s'))
       \<or> fb' = fb"
proof (cases "recv_exact 1 s")
  case (Inl e)
  with assms show ?thesis
    by (subst (asm) tool_receive.simps) (simp del: tool_receive.simps)
next
  case (Inr a)
  obtain t s1 where a: "a = (t, s1)" by (cases a)
  from Inr a have l1: "length (concat s1) < length (concat s)"
    by (auto dest!: recv_exact_pending)
  show ?thesis
  proof (cases "unpack_B t")
    case (Inl e)
    with assms Inr a show ?thesis
      by (subst (asm) tool_receive.simps) (simp del: tool_receive.simps)
  next
    case m: (Inr msg_type)
    consider "msg_type = 0" | "msg_type = 1" | "msg_type = 2" | "msg_type = 3"
      | "msg_type \<noteq> 0 \<and> msg_type \<noteq> 1 \<and> msg_type \<noteq> 2 \<and> msg_type \<noteq> 3"
      by blast
    then show ?thesis
    proof cases
      case 1
      with assms Inr a m
      have "(case recv_exact 1 s1 of
               Inl e \<Rightarrow> Inl e
             | Inr (pad, s2) \<Rightarrow>
            (case recv_exact 2 s2 of
               Inl e \<Rightarrow> Inl e
             | Inr (d, s3) \<Rightarrow>
            (case unpack_H d of
               Inl e \<Rightarrow> Inl e
             | Inr num_rects \<Rightarrow> tool_rects num_rects W fb s3))) = Inr (fb', s')"
        by (subst (asm) tool_receive.simps) (simp del: tool_receive.simps)
      then have "\<exists>n s3. tool_rects n W fb s3 = Inr (fb', s')"
        by (auto split: sum.splits prod.splits)
      then show ?thesis by blast
    next
      case 2
      with assms Inr a m
      have "(case recv_exact 1 s1 of
               Inl e \<Rightarrow> Inl e
             | Inr (pad, s2) \<Rightarrow>
            (case recv_exact 2 s2 of
               Inl e \<Rightarrow> Inl e
             | Inr (d1, s3) \<Rightarrow>
            (case unpack_H d1 of
               Inl e \<Rightarrow> Inl e
             | Inr first_color \<Rightarrow>
            (case recv_exact 2 s3 of
               Inl e \<Rightarrow> Inl e
             | Inr (d2, s4) \<Rightarrow>
            (case unpack_H d2 of
               Inl e \<Rightarrow> Inl e
             | Inr num_colors \<Rightarrow>
            (case recv_exact (num_colors * 6) s4 of
               Inl e \<Rightarrow> Inl e
             | Inr (rgb, s5) \<Rightarrow> tool_receive W fb s5)))))) = Inr (fb', s')"
        by (subst (asm) tool_receive.simps) (simp del: tool_receive.simps)
      then have "\<exists>s5. tool_receive W fb s5 = Inr (fb', s')
          \<and> length (concat s5) \<le> length (concat s1)"
        by (fastforce simp del: tool_receive.simps split: sum.splits prod.splits
            dest!: recv_exact_pending)
      with l1 show ?thesis
        by (auto simp del: tool_receive.simps)
    next
      case 3
      with assms Inr a m have "tool_receive W fb s1 = Inr (fb', s')"
        by (subst (asm) tool_receive.simps) (simp del: tool_receive.simps)
      with l1 show ?thesis by blast
    next
      case 4
      with assms Inr a m
      have "(case recv_exact 3 s1 of
               Inl e \<Rightarrow> Inl e
             | Inr (pad, s2) \<Rightarrow>
            (case recv_exact 4 s2 of
               Inl e \<Rightarrow> Inl e
             | Inr (d, s3) \<Rightarrow>
            (case unpack_I d of
               Inl e \<Rightarrow> Inl e
             | Inr text_len \<Rightarrow>
            (case recv_exact text_len s3 of
               Inl e \<Rightarrow> Inl e
             | Inr (tx, s4) \<Rightarrow> tool_receive W fb s4)))) = Inr (fb', s')"
        by (subst (asm) tool_receive.simps) (simp del: tool_receive.simps)
      then have "\<exists>s4. tool_receive W fb s4 = Inr (fb', s')
          \<and> length (concat s4) \<le> length (concat s1)"
        by (fastforce simp del: tool_receive.simps split: sum.splits prod.splits
            dest!: recv_exact_pending)
      with l1 show ?thesis
        by (auto simp del: tool_receive.simps)
    next
      case 5
      with assms Inr a m have "fb' = fb"
        by (subst (asm) tool_receive.simps) (simp del: tool_receive.simps)
      then show ?thesis by blast
    qed
  qed
qed

lemma tool_receive_length_ge:
  "tool_receive W fb s = Inr (fb', s') \<Longrightarrow> length fb \<le> length fb'"
proof (induction "length (concat s)" arbitrary: s rule: less_induct)
  case less
  from tool_receive_cases [OF less.prems] show ?case
  proof (elim disjE exE conjE)
    fix n s3
    assume "tool_rects n W fb s3 = Inr (fb', s')"
    then show ?thesis by (rule tool_rects_length_ge)
  next
    fix s1
    assume "length (concat s1) < length (concat s)" and "tool_receive W fb s1 = Inr (fb', s')"
    then show ?thesis by (rule less.hyps)
  next
    assume "fb' = fb"
    then show ?thesis by simp
  qed
qed

lemma conn_receive_cases:
  assumes "conn_receive W fb s = Inr (fb', s')"
  shows "(\<exists>n s3. conn_rects n W fb s3 = Inr (fb', s'))
       \<or> (\<exists>s1. length (concat s1) < length (concat s) \<and> conn_receive W fb s1 = Inr (fb', s'))
       \<or> fb' = fb"
proof (cases "recv_exact 1 s")
  case (Inl e)
  with assms show ?thesis
    by (subst (asm) conn_receive.simps) (simp del: conn_receive.simps)
next
  case (Inr a)
  obtain t s1 where a: "a = (t, s1)" by (cases a)
  from Inr a have l1: "length (concat s1) < length (concat s)"
    by (auto dest!: recv_exact_pending)
  show ?thesis
  proof (cases "unpack_B t")
    case (Inl e)
    with assms Inr a show ?thesis
      by (subst (asm) conn_receive.simps) (simp del: conn_receive.simps)
  next
    case m: (Inr msg_type)
    consider "msg_type = 0" | "msg_type = 1" | "msg_type = 2" | "msg_type = 3"
      | "msg_type \<noteq> 0 \<and> msg_type \<noteq> 1 \<and> msg_type \<noteq> 2 \<and> msg_type \<noteq> 3"
      by blast
    then show ?thesis
    proof cases
      case 1
      with assms Inr a m
      have "(case recv_exact 1 s1 of
               Inl e \<Rightarrow> Inl e
             | Inr (pad, s2) \<Rightarrow>
            (case recv_exact 2 s2 of
               Inl e \<Rightarrow> Inl e
             | Inr (d, s3) \<Rightarrow>
            (case unpack_H d of
               Inl e \<Rightarrow> Inl e
             | Inr num_rects \<Rightarrow> conn_rects num_rects W fb s3))) = Inr (fb', s')"
        by (subst (asm) conn_receive.simps) (simp del: conn_receive.simps)
      then have "\<exists>n s3. conn_rects n W fb s3 = Inr (fb', s')"
        by (auto split: sum.splits prod.splits)
      then show ?thesis by blast
    next
      case 2
      with assms Inr a m
      have "(case recv_exact 1 s1 of
               Inl e \<Rightarrow> Inl e
             | Inr (pad, s2) \<Rightarrow>
            (case recv_exact 2 s2 of
               Inl e \<Rightarrow> Inl e
             | Inr (d1, s3) \<Rightarrow>
            (case unpack_H d1 of
               Inl e \<Rightarrow> Inl e
             | Inr first_color \<Rightarrow>
            (case recv_exact 2 s3 of
               Inl e \<Rightarrow> Inl e
             | Inr (d2, s4) \<Rightarrow>
            (case unpack_H d2 of
               Inl e \<Rightarrow> Inl e
             | Inr num_colors \<Rightarrow>
            (case recv_exact (num_colors * 6) s4 of
               Inl e \<Rightarrow> Inl e
             | Inr (rgb, s5) \<Rightarrow> conn_receive W fb s5)))))) = Inr (fb', s')"
        by (subst (asm) conn_receive.simps) (simp del: conn_receive.simps)
      then have "\<exists>s5. conn_receive W fb s5 = Inr (fb', s')
          \<and> length (concat s5) \<le> length (concat s1)"
        by (fastforce simp del: conn_receive.simps split: sum.splits prod.splits
            dest!: recv_exact_pending)
      with l1 show ?thesis
        by (auto simp del: conn_receive.simps)
    next
      case 3
      with assms Inr a m have "conn_receive W fb s1 = Inr (fb', s')"
        by (subst (asm) conn_receive.simps) (simp del: conn_receive.simps)
      with l1 show ?thesis by blast
    next
      case 4
      with assms Inr a m
      have "(case recv_exact 3 s1 of
               Inl e \<Rightarrow> Inl e
             | Inr (pad, s2) \<Rightarrow>
            (case recv_exact 4 s2 of
               Inl e \<Rightarrow> Inl e
             | Inr (d, s3) \<Rightarrow>
            (case unpack_I d of
               Inl e \<Rightarrow> Inl e
             | Inr text_len \<Rightarrow>
            (case recv_exact text_len s3 of
               Inl e \<Rightarrow> Inl e
             | Inr (tx, s4) \<Rightarrow> conn_receive W fb s4)))) = Inr (fb', s')"
        by (subst (asm) conn_receive.simps) (simp del: conn_receive.simps)
      then have "\<exists>s4. conn_receive W fb s4 = Inr (fb', s')
          \<and> length (concat s4) \<le> length (concat s1)"
        by (fastforce simp del: conn_receive.simps split: sum.splits prod.splits
            dest!: recv_exact_pending)
      with l1 show ?thesis
        by (auto simp del: conn_receive.simps)
    next
      case 5
      with assms Inr a m have "fb' = fb"
        by (subst (asm) conn_receive.simps) (simp del: conn_receive.simps)
      then show ?thesis by blast
    qed
  qed
qed

lemma conn_receive_length_ge:
  "conn_receive W fb s = Inr (fb', s') \<Longrightarrow> length fb \<le> length fb'"
proof (induction "length (concat s)" arbitrary: s rule: less_induct)
  case less
  from conn_receive_cases [OF less.prems] show ?case
  proof (elim disjE exE conjE)
    fix n s3
    assume "conn_rects n W fb s3 = Inr (fb', s')"
    then show ?thesis by (rule conn_rects_length_ge)
  next
    fix s1
    assume "length (concat s1) < length (concat s)" and "conn_receive W fb s1 = Inr (fb', s')"
    then show ?thesis by (rule less.hyps)
  next
    assume "fb' = fb"
    then show ?thesis by simp
  qed
qed

subsection \<open>Declared offsets, and the last rectangle wins\<close>

lemma row_in_buffer:
  fixes W H rx ry rw rh row :: nat
  assumes "rx + rw \<le> W" and "ry + rh \<le> H" and "row < rh"
  shows "((ry + row) * W + rx) * 4 + rw * 4 \<le> W * H * 4"
proof -
  have "(ry + row) * W + (rx + rw) \<le> (ry + row) * W + W"
    using assms(1) by simp
  also have "\<dots> = Suc (ry + row) * W"
    by simp
  also have "\<dots> \<le> H * W"
    using assms(2,3) by (intro mult_le_mono1) simp
  finally show ?thesis
    by (simp add: algebra_simps)
qed

lemma offset_covers:
  assumes d: "in_display W H r" and row: "row < rect_h r" and j: "j < rect_w r * 4"
  defines "i \<equiv> ((rect_y r + row) * W + rect_x r) * 4 + j"
  shows "i < W * H * 4" and "covers W r i"
    and "rect_byte W r i = rect_payload r ! (row * rect_w r * 4 + j)"
proof -
  from d have x: "rect_x r + rect_w r \<le> W" and y: "rect_y r + rect_h r \<le> H"
    by (simp_all add: in_display_def)
  from row_in_buffer [OF x y row] j show "i < W * H * 4"
    unfolding i_def by linarith
  have "((rect_y r + row) * W + rect_x r) * 4 \<le> i
      \<and> i < ((rect_y r + row) * W + rect_x r) * 4 + rect_w r * 4"
    using j unfolding i_def by simp
  with row_segment [OF x, of "rect_y r + row" i]
  have c: "i div 4 div W = rect_y r + row" "rect_x r \<le> i div 4 mod W"
    "i div 4 mod W < rect_x r + rect_w r"
    by simp_all
  with row show "covers W r i"
    by (simp add: covers_def)
  have "i - ((rect_y r + row) * W + rect_x r) * 4 = j"
    unfolding i_def by simp
  with row_index [OF c(1) c(2), of "rect_w r"]
  show "rect_byte W r i = rect_payload r ! (row * rect_w r * 4 + j)"
    by (simp add: rect_byte_def)
qed

lemma find_app:
  "find P (xs @ ys) = (case find P xs of None \<Rightarrow> find P ys | Some x \<Rightarrow> Some x)"
  by (induction xs) simp_all

lemma placed_last:
  assumes "\<forall>q\<in>set post. \<not> covers W q i" and "covers W r i"
  shows "placed W (pre @ r # post) fb i = rect_byte W r i"
proof -
  from assms(1) have "find (\<lambda>q. covers W q i) (rev post) = None"
    by (simp add: find_None_iff)
  with assms(2) show ?thesis
    by (simp add: placed_def find_app)
qed

lemma placed_none:
  "\<forall>q\<in>set rs. \<not> covers W q i \<Longrightarrow> placed W rs fb i = fb ! i"
  by (simp add: placed_def find_None_iff [THEN iffD2])

lemma tool_capture_eq:
  "tool_receive W (replicate (W * H * 4) 0) (inbuf sk) = Inr (fb, s') \<Longrightarrow>
   \<exists>t. tool_capture W H sk = Inr (fb, t) \<and> inbuf t = s'"
  by (simp add: tool_capture_def Let_def sock_send_def del: tool_receive.simps)

lemma capture_screenshot_eq:
  "conn_receive W (replicate (W * H * 4) 0) (inbuf sk) = Inr (fb, s') \<Longrightarrow>
   \<exists>t. capture_screenshot \<lparr>sess_width = W, sess_height = H, sess_name = nm\<rparr> sk = Inr (fb, t)
       \<and> inbuf t = s'"
  by (simp add: capture_screenshot_def Let_def sock_send_def del: conn_receive.simps)

lemma tool_capture_Inr:
  "tool_capture W H sk = Inr (fb, t) \<Longrightarrow>
   tool_receive W (replicate (W * H * 4) 0) (inbuf sk) = Inr (fb, inbuf t)"
  by (auto simp: tool_capture_def Let_def sock_send_def simp del: tool_receive.simps
      split: sum.splits)

lemma capture_screenshot_Inr:
  "capture_screenshot sess sk = Inr (fb, t) \<Longrightarrow>
   conn_receive (sess_width sess) (replicate (sess_width sess * sess_height sess * 4) 0) (inbuf sk)
     = Inr (fb, inbuf t)"
  by (auto simp: capture_screenshot_def Let_def sock_send_def simp del: conn_receive.simps
      split: sum.splits)

text \<open>
  C1. A stream that holds (after any skipped messages) a FramebufferUpdate whose
  rectangles are all Raw and lie within the display: both captures return the same
  buffer and leave the rest of the stream unread. The buffer is the row loop applied to
  the rectangles in order; it has \<open>width * height * 4\<close> bytes; byte \<open>i\<close> is the byte of
  the last rectangle that covers position \<open>i\<close>, and zero where none does. In the claim's
  words: for a rectangle, a row and an offset \<open>j < w * 4\<close> into the row, the byte at
  \<open>((y + row) * width + x) * 4 + j\<close> is byte \<open>row * w * 4 + j\<close> of that rectangle's
  payload, unless a rectangle processed later covers the position.
\<close>

theorem C1_raw_compositing:
  assumes ms: "\<forall>m\<in>set ms. wf_other m"
    and rs: "\<forall>r\<in>set rs. wf_rect r \<and> is_raw r \<and> in_display W H r"
    and n: "length rs < 65536"
    and s: "concat (inbuf sk) = concat (map wire_other ms) @ wire_update rs @ rest"
  shows "\<exists>fb t1 t2.
      tool_capture W H sk = Inr (fb, t1) \<and> concat (inbuf t1) = rest
    \<and> capture_screenshot \<lparr>sess_width = W, sess_height = H, sess_name = nm\<rparr> sk = Inr (fb, t2)
    \<and> concat (inbuf t2) = rest
    \<and> fb = composite W rs (replicate (W * H * 4) 0)
    \<and> length fb = W * H * 4
    \<and> (\<forall>i<W * H * 4. fb ! i = placed W rs (replicate (W * H * 4) 0) i)
    \<and> (\<forall>i<W * H * 4. (\<forall>q\<in>set rs. \<not> covers W q i) \<longrightarrow> fb ! i = 0)
    \<and> (\<forall>pre r post row j.
          rs = pre @ r # post \<and> row < rect_h r \<and> j < rect_w r * 4
          \<and> (\<forall>q\<in>set post. \<not> covers W q (((rect_y r + row) * W + rect_x r) * 4 + j))
          \<longrightarrow> fb ! (((rect_y r + row) * W + rect_x r) * 4 + j)
                = rect_payload r ! (row * rect_w r * 4 + j))"
proof -
  define z :: bytes where "z = replicate (W * H * 4) 0"
  define fb where "fb = composite W rs z"
  have lz: "length z = W * H * 4"
    by (simp add: z_def)
  from rs have wf: "\<forall>r\<in>set rs. wf_rect r"
    and wf': "\<forall>r\<in>set rs. wf_rect r \<and> (\<not> is_raw r \<longrightarrow> rect_payload r = [])"
    and raw: "\<forall>r\<in>set rs. is_raw r"
    by simp_all
  from raw have tw: "takeWhile is_raw rs = rs" and fl: "filter is_raw rs = rs"
    and ur: "unread rs = []"
    by (simp_all add: unread_def dropWhile_eq_Nil_conv [THEN iffD2])
  from tool_receive_stream [OF ms wf n s, of W z] tw ur obtain s1 where
    s1: "tool_receive W z (inbuf sk) = Inr (fb, s1)" "concat s1 = rest"
    unfolding fb_def by (auto simp del: tool_receive.simps)
  from conn_receive_stream [OF ms wf' n s, of W z] fl obtain s2 where
    s2: "conn_receive W z (inbuf sk) = Inr (fb, s2)" "concat s2 = rest"
    unfolding fb_def by (auto simp del: conn_receive.simps)
  from tool_capture_eq [OF s1(1) [unfolded z_def]] s1(2) obtain t1 where
    t1: "tool_capture W H sk = Inr (fb, t1)" "concat (inbuf t1) = rest"
    by auto
  from capture_screenshot_eq [OF s2(1) [unfolded z_def], of nm] s2(2) obtain t2 where
    t2: "capture_screenshot \<lparr>sess_width = W, sess_height = H, sess_name = nm\<rparr> sk = Inr (fb, t2)"
      "concat (inbuf t2) = rest"
    by auto
  from composite_placed [OF lz rs] have lf: "length fb = W * H * 4"
    and pl: "\<And>i. i < W * H * 4 \<Longrightarrow> fb ! i = placed W rs z i"
    unfolding fb_def by simp_all
  have zero: "fb ! i = 0" if "i < W * H * 4" and "\<forall>q\<in>set rs. \<not> covers W q i" for i
    using pl [OF that(1)] placed_none [OF that(2), of z] that(1) by (simp add: z_def)
  have off: "fb ! (((rect_y r + row) * W + rect_x r) * 4 + j)
                = rect_payload r ! (row * rect_w r * 4 + j)"
    if "rs = pre @ r # post" and "row < rect_h r" and "j < rect_w r * 4"
      and "\<forall>q\<in>set post. \<not> covers W q (((rect_y r + row) * W + rect_x r) * 4 + j)"
    for pre r post row j
  proof -
    from that(1) rs have d: "in_display W H r"
      by simp
    note oc = offset_covers [OF d that(2,3)]
    from pl [OF oc(1)] placed_last [OF that(4) oc(2), of pre z] oc(3) that(1)
    show ?thesis by simp
  qed
  from t1 t2 lf pl zero off show ?thesis
    unfolding fb_def z_def by blast
qed

theorem C1_raw_compositing_witness:
  "\<exists>fb t1 t2.
      tool_capture 2 1
        \<lparr>inbuf = [[2, 0, 0], [0, 2, 0, 0, 0, 0, 0, 2, 0, 1, 0, 0, 0, 0, 1, 2, 3, 4],
                   [5, 6, 7, 8, 0, 1, 0, 0, 0, 1, 0, 1, 0, 0, 0, 0, 9, 10, 11, 12, 77]],
         outbuf = []\<rparr> = Inr (fb, t1)
    \<and> concat (inbuf t1) = [77]
    \<and> capture_screenshot \<lparr>sess_width = 2, sess_height = 1, sess_name = []\<rparr>
        \<lparr>inbuf = [[2, 0, 0], [0, 2, 0, 0, 0, 0, 0, 2, 0, 1, 0, 0, 0, 0, 1, 2, 3, 4],
                   [5, 6, 7, 8, 0, 1, 0, 0, 0, 1, 0, 1, 0, 0, 0, 0, 9, 10, 11, 12, 77]],
         outbuf = []\<rparr> = Inr (fb, t2)
    \<and> concat (inbuf t2) = [77]
    \<and> fb = [1, 2, 3, 4, 9, 10, 11, 12]"
proof -
  define r1 where "r1 = \<lparr>rect_x = 0, rect_y = 0, rect_w = 2, rect_h = 1, rect_encoding = 0,
    rect_payload = [1, 2, 3, 4, 5, 6, 7, 8 :: byte]\<rparr>"
  define r2 where "r2 = \<lparr>rect_x = 1, rect_y = 0, rect_w = 1, rect_h = 1, rect_encoding = 0,
    rect_payload = [9, 10, 11, 12 :: byte]\<rparr>"
  define sk where "sk = \<lparr>inbuf = [[2, 0, 0], [0, 2, 0, 0, 0, 0, 0, 2, 0, 1, 0, 0, 0, 0, 1, 2, 3, 4],
                   [5, 6, 7, 8, 0, 1, 0, 0, 0, 1, 0, 1, 0, 0, 0, 0, 9, 10, 11, 12, 77 :: byte]],
         outbuf = []\<rparr>"
  have ms: "\<forall>m\<in>set [Bell]. wf_other m"
    by simp
  have rs: "\<forall>r\<in>set [r1, r2]. wf_rect r \<and> is_raw r \<and> in_display 2 1 r"
    by (simp add: r1_def r2_def wf_rect_def is_raw_def in_display_def)
  have n: "length [r1, r2] < 65536"
    by simp
  have s: "concat (inbuf sk) = concat (map wire_other [Bell]) @ wire_update [r1, r2] @ [77]"
    by (simp add: sk_def r1_def r2_def wire_update_def wire_rect_def wire_header_def pack_H_def
        pack_i_def pack_I_def)
  have c: "composite 2 [r1, r2] (replicate (2 * 1 * 4) 0) = [1, 2, 3, 4, 9, 10, 11, 12]"
    by (simp add: composite_def copy_rect_def copy_row_def slice_assign_def py_slice_def
        r1_def r2_def numeral_eq_Suc)
  from C1_raw_compositing [OF ms rs n s, of "[]"] c show ?thesis
    unfolding sk_def by auto
qed

subsection \<open>A rectangle of an unsupported encoding\<close>

lemma takeWhile_raw_mid:
  "\<forall>r\<in>set pre. is_raw r \<Longrightarrow> \<not> is_raw u \<Longrightarrow> takeWhile is_raw (pre @ u # post) = pre"
  by (simp add: takeWhile_append2)

lemma dropWhile_raw_mid:
  "\<forall>r\<in>set pre. is_raw r \<Longrightarrow> \<not> is_raw u \<Longrightarrow> dropWhile is_raw (pre @ u # post) = u # post"
  by (simp add: dropWhile_append2)

text \<open>
  C2, as the standalone tool has it. A stream holding (after any skipped messages) an
  update whose rectangle \<open>u\<close> has another encoding, with Raw rectangles \<open>pre\<close> before it
  and rectangles \<open>post\<close> after it. The tool returns the buffer with the rectangles of
  \<open>pre\<close> applied, in order, and nothing else: \<open>u\<close> writes nothing, and the payload of \<open>u\<close>
  and all of \<open>post\<close> stay unread on the stream. When the rectangles of \<open>pre\<close> lie within
  the display, each byte of the buffer is the byte of the last rectangle of \<open>pre\<close> that
  covers it, and the prior byte where none does.
\<close>

theorem C2_unsupported_rect:
  assumes ms: "\<forall>m\<in>set ms. wf_other m"
    and pre: "\<forall>r\<in>set pre. wf_rect r \<and> is_raw r"
    and u: "wf_rect u \<and> \<not> is_raw u"
    and post: "\<forall>r\<in>set post. wf_rect r"
    and n: "length (pre @ u # post) < 65536"
    and s: "concat s = concat (map wire_other ms) @ wire_update (pre @ u # post) @ rest"
  shows "(\<exists>s1. tool_receive W fb s = Inr (composite W pre fb, s1)
              \<and> concat s1 = rect_payload u @ concat (map wire_rect post) @ rest)
       \<and> (length fb = W * H * 4 \<and> (\<forall>r\<in>set pre. in_display W H r) \<longrightarrow>
            length (composite W pre fb) = W * H * 4
            \<and> (\<forall>i<W * H * 4. composite W pre fb ! i = placed W pre fb i)
            \<and> (\<forall>i<W * H * 4. (\<forall>r\<in>set pre. \<not> covers W r i) \<longrightarrow> composite W pre fb ! i = fb ! i))"
proof
  from pre u post have wf: "\<forall>r\<in>set (pre @ u # post). wf_rect r"
    by auto
  from pre u have tw: "takeWhile is_raw (pre @ u # post) = pre"
    by (simp add: takeWhile_raw_mid)
  from pre u have "dropWhile is_raw (pre @ u # post) = u # post"
    by (simp add: dropWhile_raw_mid)
  then have ur: "unread (pre @ u # post) = rect_payload u @ concat (map wire_rect post)"
    by (simp add: unread_def)
  from tool_receive_stream [OF ms wf n s, of W fb]
  show "\<exists>s1. tool_receive W fb s = Inr (composite W pre fb, s1)
              \<and> concat s1 = rect_payload u @ concat (map wire_rect post) @ rest"
    unfolding tw ur by (simp del: tool_receive.simps)
  show "length fb = W * H * 4 \<and> (\<forall>r\<in>set pre. in_display W H r) \<longrightarrow>
            length (composite W pre fb) = W * H * 4
            \<and> (\<forall>i<W * H * 4. composite W pre fb ! i = placed W pre fb i)
            \<and> (\<forall>i<W * H * 4. (\<forall>r\<in>set pre. \<not> covers W r i) \<longrightarrow> composite W pre fb ! i = fb ! i)"
  proof
    assume a: "length fb = W * H * 4 \<and> (\<forall>r\<in>set pre. in_display W H r)"
    with pre have "\<forall>r\<in>set pre. wf_rect r \<and> is_raw r \<and> in_display W H r"
      by simp
    from composite_placed [of fb W H pre, OF _ this] a
    have c: "length (composite W pre fb) = W * H * 4"
      "\<forall>i<W * H * 4. composite W pre fb ! i = placed W pre fb i"
      by simp_all
    then have "\<forall>i<W * H * 4. (\<forall>r\<in>set pre. \<not> covers W r i) \<longrightarrow> composite W pre fb ! i = fb ! i"
      by (simp add: placed_none)
    with c show "length (composite W pre fb) = W * H * 4
            \<and> (\<forall>i<W * H * 4. composite W pre fb ! i = placed W pre fb i)
            \<and> (\<forall>i<W * H * 4. (\<forall>r\<in>set pre. \<not> covers W r i) \<longrightarrow> composite W pre fb ! i = fb ! i)"
      by simp
  qed
qed

theorem C2_unsupported_rect_witness:
  "(\<exists>s1. tool_receive 2 [0, 0, 0, 0, 0, 0, 0, 0]
            [[2, 0, 0, 0, 3, 0, 0, 0, 0, 0, 1, 0, 1, 0, 0, 0, 0, 1, 2, 3, 4],
             [0, 0, 0, 0, 0, 2, 0, 1, 0, 0, 0, 5, 9, 9],
             [0, 1, 0, 0, 0, 1, 0, 1, 0, 0, 0, 0, 5, 6, 7, 8, 99]]
          = Inr ([1, 2, 3, 4, 0, 0, 0, 0], s1)
        \<and> concat s1 = [9, 9, 0, 1, 0, 0, 0, 1, 0, 1, 0, 0, 0, 0, 5, 6, 7, 8, 99])
   \<and> length [1, 2, 3, 4, 0, 0, 0, 0 :: byte] = 2 * 1 * 4
   \<and> placed 2 [\<lparr>rect_x = 0, rect_y = 0, rect_w = 1, rect_h = 1, rect_encoding = 0,
                   rect_payload = [1, 2, 3, 4]\<rparr>] [0, 0, 0, 0, 0, 0, 0, 0] 2 = 3
   \<and> placed 2 [\<lparr>rect_x = 0, rect_y = 0, rect_w = 1, rect_h = 1, rect_encoding = 0,
                   rect_payload = [1, 2, 3, 4]\<rparr>] [0, 0, 0, 0, 0, 0, 0, 0] 6 = 0"
proof -
  define r1 where "r1 = \<lparr>rect_x = 0, rect_y = 0, rect_w = 1, rect_h = 1, rect_encoding = 0,
    rect_payload = [1, 2, 3, 4 :: byte]\<rparr>"
  define u where "u = \<lparr>rect_x = 0, rect_y = 0, rect_w = 2, rect_h = 1, rect_encoding = 5,
    rect_payload = [9, 9 :: byte]\<rparr>"
  define r2 where "r2 = \<lparr>rect_x = 1, rect_y = 0, rect_w = 1, rect_h = 1, rect_encoding = 0,
    rect_payload = [5, 6, 7, 8 :: byte]\<rparr>"
  define s where "s = [[2, 0, 0, 0, 3, 0, 0, 0, 0, 0, 1, 0, 1, 0, 0, 0, 0, 1, 2, 3, 4],
             [0, 0, 0, 0, 0, 2, 0, 1, 0, 0, 0, 5, 9, 9],
             [0, 1, 0, 0, 0, 1, 0, 1, 0, 0, 0, 0, 5, 6, 7, 8, 99 :: byte]]"
  have ms: "\<forall>m\<in>set [Bell]. wf_other m"
    by simp
  have pre: "\<forall>r\<in>set [r1]. wf_rect r \<and> is_raw r"
    by (simp add: r1_def wf_rect_def is_raw_def)
  have u: "wf_rect u \<and> \<not> is_raw u"
    by (simp add: u_def wf_rect_def is_raw_def)
  have post: "\<forall>r\<in>set [r2]. wf_rect r"
    by (simp add: r2_def wf_rect_def is_raw_def)
  have n: "length ([r1] @ u # [r2]) < 65536"
    by simp
  have c: "concat s = concat (map wire_other [Bell]) @ wire_update ([r1] @ u # [r2]) @ [99]"
    by (simp add: s_def r1_def u_def r2_def wire_update_def wire_rect_def wire_header_def
        pack_H_def pack_i_def pack_I_def)
  have w: "rect_payload u = [9, 9]" "wire_rect r2 = [0, 1, 0, 0, 0, 1, 0, 1, 0, 0, 0, 0, 5, 6, 7, 8]"
    by (simp_all add: u_def r2_def wire_rect_def wire_header_def pack_H_def pack_i_def pack_I_def)
  have c1: "composite 2 [r1] [0, 0, 0, 0, 0, 0, 0, 0] = [1, 2, 3, 4, 0, 0, 0, 0]"
    by (simp add: composite_def copy_rect_def copy_row_def slice_assign_def py_slice_def r1_def)
  have d: "length [0, 0, 0, 0, 0, 0, 0, 0 :: byte] = 2 * 1 * 4 \<and> (\<forall>r\<in>set [r1]. in_display 2 1 r)"
    by (simp add: r1_def in_display_def)
  from C2_unsupported_rect [OF ms pre u post n c, of 2 "[0, 0, 0, 0, 0, 0, 0, 0]" 1] d w c1
  have t: "\<exists>s1. tool_receive 2 [0, 0, 0, 0, 0, 0, 0, 0] s = Inr ([1, 2, 3, 4, 0, 0, 0, 0], s1)
        \<and> concat s1 = [9, 9, 0, 1, 0, 0, 0, 1, 0, 1, 0, 0, 0, 0, 5, 6, 7, 8, 99]"
    and p: "\<forall>i<8. [1, 2, 3, 4, 0, 0, 0, 0] ! i = placed 2 [r1] [0, 0, 0, 0, 0, 0, 0, 0] i"
    by (simp_all del: tool_receive.simps)
  from p [rule_format, of 2] p [rule_format, of 6]
  have "placed 2 [r1] [0, 0, 0, 0, 0, 0, 0, 0] 2 = 3" "placed 2 [r1] [0, 0, 0, 0, 0, 0, 0, 0] 6 = 0"
    by simp_all
  with t show ?thesis
    unfolding s_def r1_def by (simp del: tool_receive.simps)
qed


text \<open>
  C2 as stated fails on the standalone tool. An update of two rectangles for a 1x1
  display, the first of encoding 1, the second Raw with payload 1, 2, 3, 4: the tool
  returns the zero buffer and leaves the second rectangle unread, where applying it
  gives 1, 2, 3, 4.
\<close>

theorem C2_later_rect_lost:
  "tool_receive 1 [0, 0, 0, 0]
     [wire_update
        [\<lparr>rect_x = 0, rect_y = 0, rect_w = 1, rect_h = 1, rect_encoding = 1, rect_payload = []\<rparr>,
         \<lparr>rect_x = 0, rect_y = 0, rect_w = 1, rect_h = 1, rect_encoding = 0,
            rect_payload = [1, 2, 3, 4]\<rparr>]]
   = Inr ([0, 0, 0, 0],
          [wire_rect \<lparr>rect_x = 0, rect_y = 0, rect_w = 1, rect_h = 1, rect_encoding = 0,
             rect_payload = [1, 2, 3, 4]\<rparr>])
   \<and> composite 1
        [\<lparr>rect_x = 0, rect_y = 0, rect_w = 1, rect_h = 1, rect_encoding = 0,
            rect_payload = [1, 2, 3, 4]\<rparr>] [0, 0, 0, 0]
     = [1, 2, 3, 4]"
  by code_simp

subsection \<open>The size of the buffer\<close>

lemma copy_row_length_fit:
  assumes "length rect_data = rw * rh * 4" and "row < rh"
    and "rw = 0 \<or> ((ry + row) * W + rx) * 4 + rw * 4 \<le> length fb"
  shows "length (copy_row W rx ry rw rect_data row fb) = length fb"
  using slice_row(1) [OF assms(1,2)] assms(3)
  by (auto simp: copy_row_def Let_def slice_assign_def)

lemma copy_row_length_grow:
  assumes "length rect_data = rw * rh * 4" and "row < rh"
    and "rw \<noteq> 0" and "length fb < ((ry + row) * W + rx) * 4 + rw * 4"
  shows "length fb < length (copy_row W rx ry rw rect_data row fb)"
  using slice_row(1) [OF assms(1,2)] assms(3,4)
  by (auto simp: copy_row_def Let_def slice_assign_def min_def)

lemma copy_rows_length_iff:
  assumes "length rect_data = rw * rh * 4"
  shows "k \<le> rh \<Longrightarrow>
     (length (fold (copy_row W rx ry rw rect_data) [0..<k] fb) = length fb
        \<longleftrightarrow> rw = 0 \<or> (\<forall>row<k. ((ry + row) * W + rx) * 4 + rw * 4 \<le> length fb))"
proof (induction k)
  case 0
  show ?case by simp
next
  case (Suc k)
  then have k: "k < rh" "k \<le> rh"
    by simp_all
  define c where "c = fold (copy_row W rx ry rw rect_data) [0..<k] fb"
  have ge: "length fb \<le> length c"
    unfolding c_def by (rule copy_rows_length_ge [OF assms k(2)])
  have ge': "length c \<le> length (copy_row W rx ry rw rect_data k c)"
    by (rule copy_row_length_ge [OF assms k(1)])
  have ih: "length c = length fb
      \<longleftrightarrow> rw = 0 \<or> (\<forall>row<k. ((ry + row) * W + rx) * 4 + rw * 4 \<le> length fb)"
    unfolding c_def by (rule Suc.IH [OF k(2)])
  show ?case
    unfolding copy_rect_Suc c_def [symmetric]
  proof
    assume e: "length (copy_row W rx ry rw rect_data k c) = length fb"
    with ge ge' have lc: "length c = length fb"
      by simp
    show "rw = 0 \<or> (\<forall>row<Suc k. ((ry + row) * W + rx) * 4 + rw * 4 \<le> length fb)"
    proof (cases "rw = 0")
      case True
      then show ?thesis by simp
    next
      case False
      with ih lc have a: "\<forall>row<k. ((ry + row) * W + rx) * 4 + rw * 4 \<le> length fb"
        by simp
      have "((ry + k) * W + rx) * 4 + rw * 4 \<le> length fb"
      proof (rule ccontr)
        assume "\<not> ((ry + k) * W + rx) * 4 + rw * 4 \<le> length fb"
        with lc have "length c < ((ry + k) * W + rx) * 4 + rw * 4"
          by simp
        from copy_row_length_grow [OF assms k(1) False this] e lc
        show False by simp
      qed
      with a show ?thesis
        by (auto simp: less_Suc_eq)
    qed
  next
    assume a: "rw = 0 \<or> (\<forall>row<Suc k. ((ry + row) * W + rx) * 4 + rw * 4 \<le> length fb)"
    with ih have lc: "length c = length fb"
      by auto
    from a lc have "rw = 0 \<or> ((ry + k) * W + rx) * 4 + rw * 4 \<le> length c"
      by auto
    from copy_row_length_fit [OF assms k(1) this] lc
    show "length (copy_row W rx ry rw rect_data k c) = length fb"
      by simp
  qed
qed

lemma copy_rect_length_iff:
  assumes "length (rect_payload r) = rect_w r * rect_h r * 4"
  shows "length (copy_rect W fb (rect_x r) (rect_y r) (rect_w r) (rect_h r) (rect_payload r))
           = length fb
         \<longleftrightarrow> rows_fit W (length fb) r"
  unfolding copy_rect_def rows_fit_def
  using copy_rows_length_iff [OF assms, of "rect_h r" W "rect_x r" "rect_y r" fb]
  by (simp add: Ball_def)

lemma composite_length_iff:
  "\<forall>r\<in>set rs. length (rect_payload r) = rect_w r * rect_h r * 4 \<Longrightarrow>
   length (composite W rs fb) = length fb \<longleftrightarrow> (\<forall>r\<in>set rs. rows_fit W (length fb) r)"
proof (induction rs rule: rev_induct)
  case Nil
  show ?case by (simp add: composite_def)
next
  case (snoc r rs)
  then have p: "\<forall>r\<in>set rs. length (rect_payload r) = rect_w r * rect_h r * 4"
    and pr: "length (rect_payload r) = rect_w r * rect_h r * 4"
    by simp_all
  define c where "c = composite W rs fb"
  have ge: "length fb \<le> length c"
    unfolding c_def by (rule composite_length_ge [OF p])
  have ge': "length c
      \<le> length (copy_rect W c (rect_x r) (rect_y r) (rect_w r) (rect_h r) (rect_payload r))"
    by (rule copy_rect_length_ge [OF pr])
  have ih: "length c = length fb \<longleftrightarrow> (\<forall>r\<in>set rs. rows_fit W (length fb) r)"
    unfolding c_def by (rule snoc.IH [OF p])
  show ?case
    unfolding composite_snoc c_def [symmetric]
  proof
    assume e: "length (copy_rect W c (rect_x r) (rect_y r) (rect_w r) (rect_h r) (rect_payload r))
        = length fb"
    with ge ge' have lc: "length c = length fb"
      by simp
    with e copy_rect_length_iff [OF pr, of W c] have "rows_fit W (length fb) r"
      by simp
    with ih lc show "\<forall>r\<in>set (rs @ [r]). rows_fit W (length fb) r"
      by simp
  next
    assume a: "\<forall>r\<in>set (rs @ [r]). rows_fit W (length fb) r"
    with ih have lc: "length c = length fb"
      by simp
    with a copy_rect_length_iff [OF pr, of W c]
    show "length (copy_rect W c (rect_x r) (rect_y r) (rect_w r) (rect_h r) (rect_payload r))
        = length fb"
      by simp
  qed
qed

lemma composite_raw_length_iff:
  assumes "\<forall>r\<in>set rs. wf_rect r \<and> is_raw r"
  shows "length (composite W rs (replicate n 0)) = n \<longleftrightarrow> (\<forall>r\<in>set rs. rows_fit W n r)"
proof -
  from assms have "\<forall>r\<in>set rs. length (rect_payload r) = rect_w r * rect_h r * 4"
    by (simp add: wf_rect_def)
  from composite_length_iff [OF this, of W "replicate n 0"] show ?thesis
    by simp
qed

text \<open>
  C6, as the code has it. The buffer a capture returns is never shorter than
  \<open>width * height * 4\<close>, on any stream. On a stream that holds (after any skipped
  messages) a FramebufferUpdate, the standalone tool returns a buffer of exactly
  \<open>width * height * 4\<close> bytes if and only if every Raw rectangle before the first
  rectangle of another encoding (these are the rectangles the tool applies) has width 0
  or ends each of its row slices within the buffer; the rectangles of other encodings
  may carry any payload. On an update of Raw rectangles the connection class returns a
  buffer of exactly \<open>width * height * 4\<close> bytes if and only if every rectangle has width 0
  or ends each of its row slices within the buffer.
\<close>

theorem C6_buffer_size:
  "(\<forall>fb t. tool_capture W H sk = Inr (fb, t) \<longrightarrow> W * H * 4 \<le> length fb)
   \<and> (\<forall>fb t. capture_screenshot \<lparr>sess_width = W, sess_height = H, sess_name = nm\<rparr> sk = Inr (fb, t)
         \<longrightarrow> W * H * 4 \<le> length fb)
   \<and> ((\<forall>m\<in>set ms. wf_other m) \<and> (\<forall>r\<in>set rs. wf_rect r) \<and> length rs < 65536
       \<and> concat (inbuf sk) = concat (map wire_other ms) @ wire_update rs @ rest
       \<longrightarrow> (\<exists>fb t. tool_capture W H sk = Inr (fb, t)
              \<and> (length fb = W * H * 4
                   \<longleftrightarrow> (\<forall>r\<in>set (takeWhile is_raw rs). rows_fit W (W * H * 4) r))))
   \<and> ((\<forall>m\<in>set ms. wf_other m) \<and> (\<forall>r\<in>set rs. wf_rect r \<and> is_raw r) \<and> length rs < 65536
       \<and> concat (inbuf sk) = concat (map wire_other ms) @ wire_update rs @ rest
       \<longrightarrow> (\<exists>fb t. capture_screenshot \<lparr>sess_width = W, sess_height = H, sess_name = nm\<rparr> sk
                      = Inr (fb, t)
              \<and> (length fb = W * H * 4 \<longleftrightarrow> (\<forall>r\<in>set rs. rows_fit W (W * H * 4) r))))"
proof (intro conjI allI impI)
  fix fb t
  assume "tool_capture W H sk = Inr (fb, t)"
  from tool_receive_length_ge [OF tool_capture_Inr [OF this]]
  show "W * H * 4 \<le> length fb"
    by simp
next
  fix fb t
  assume "capture_screenshot \<lparr>sess_width = W, sess_height = H, sess_name = nm\<rparr> sk = Inr (fb, t)"
  from conn_receive_length_ge [OF capture_screenshot_Inr [OF this]]
  show "W * H * 4 \<le> length fb"
    by simp
next
  assume a: "(\<forall>m\<in>set ms. wf_other m) \<and> (\<forall>r\<in>set rs. wf_rect r) \<and> length rs < 65536
       \<and> concat (inbuf sk) = concat (map wire_other ms) @ wire_update rs @ rest"
  define z :: bytes where "z = replicate (W * H * 4) 0"
  from a have ms: "\<forall>m\<in>set ms. wf_other m"
    and wf: "\<forall>r\<in>set rs. wf_rect r"
    and n: "length rs < 65536"
    and s: "concat (inbuf sk) = concat (map wire_other ms) @ wire_update rs @ rest"
    by simp_all
  from wf have "\<forall>r\<in>set (takeWhile is_raw rs). wf_rect r \<and> is_raw r"
    by (auto dest: set_takeWhileD)
  then have l: "length (composite W (takeWhile is_raw rs) z) = W * H * 4
      \<longleftrightarrow> (\<forall>r\<in>set (takeWhile is_raw rs). rows_fit W (W * H * 4) r)"
    unfolding z_def by (rule composite_raw_length_iff)
  from tool_receive_stream [OF ms wf n s, of W z] obtain s1 where
    "tool_receive W z (inbuf sk) = Inr (composite W (takeWhile is_raw rs) z, s1)"
    by blast
  from tool_capture_eq [OF this [unfolded z_def]] obtain t1 where
    "tool_capture W H sk = Inr (composite W (takeWhile is_raw rs) z, t1)"
    unfolding z_def by blast
  with l show "\<exists>fb t. tool_capture W H sk = Inr (fb, t)
              \<and> (length fb = W * H * 4
                   \<longleftrightarrow> (\<forall>r\<in>set (takeWhile is_raw rs). rows_fit W (W * H * 4) r))"
    by blast
next
  assume a: "(\<forall>m\<in>set ms. wf_other m) \<and> (\<forall>r\<in>set rs. wf_rect r \<and> is_raw r) \<and> length rs < 65536
       \<and> concat (inbuf sk) = concat (map wire_other ms) @ wire_update rs @ rest"
  define z :: bytes where "z = replicate (W * H * 4) 0"
  from a have ms: "\<forall>m\<in>set ms. wf_other m"
    and raw: "\<forall>r\<in>set rs. wf_rect r \<and> is_raw r"
    and wf': "\<forall>r\<in>set rs. wf_rect r \<and> (\<not> is_raw r \<longrightarrow> rect_payload r = [])"
    and n: "length rs < 65536"
    and s: "concat (inbuf sk) = concat (map wire_other ms) @ wire_update rs @ rest"
    by simp_all
  from raw have f: "filter is_raw rs = rs"
    by simp
  from raw have l: "length (composite W rs z) = W * H * 4
      \<longleftrightarrow> (\<forall>r\<in>set rs. rows_fit W (W * H * 4) r)"
    unfolding z_def by (rule composite_raw_length_iff)
  from conn_receive_stream [OF ms wf' n s, of W z] obtain s2 where
    "conn_receive W z (inbuf sk) = Inr (composite W rs z, s2)"
    unfolding f by blast
  from capture_screenshot_eq [OF this [unfolded z_def], of nm] obtain t2 where
    "capture_screenshot \<lparr>sess_width = W, sess_height = H, sess_name = nm\<rparr> sk
          = Inr (composite W rs z, t2)"
    unfolding z_def by blast
  with l show "\<exists>fb t. capture_screenshot \<lparr>sess_width = W, sess_height = H, sess_name = nm\<rparr> sk
                      = Inr (fb, t)
              \<and> (length fb = W * H * 4 \<longleftrightarrow> (\<forall>r\<in>set rs. rows_fit W (W * H * 4) r))"
    by blast
qed


text \<open>
  C6 as stated fails: a Raw rectangle declared at row 1 of a 1x1 display. Its destination
  slice starts at the end of the 4-byte buffer, so the slice assignment appends the
  payload: both captures return 8 bytes.
\<close>

theorem C6_buffer_grows:
  "tool_capture 1 1
     \<lparr>inbuf = [wire_update
        [\<lparr>rect_x = 0, rect_y = 1, rect_w = 1, rect_h = 1, rect_encoding = 0,
            rect_payload = [1, 2, 3, 4]\<rparr>]], outbuf = []\<rparr>
   = Inr ([0, 0, 0, 0, 1, 2, 3, 4],
          \<lparr>inbuf = [], outbuf = [set_pixel_format_msg, set_encodings_msg, update_request_msg 1 1]\<rparr>)
   \<and> capture_screenshot \<lparr>sess_width = 1, sess_height = 1, sess_name = []\<rparr>
     \<lparr>inbuf = [wire_update
        [\<lparr>rect_x = 0, rect_y = 1, rect_w = 1, rect_h = 1, rect_encoding = 0,
            rect_payload = [1, 2, 3, 4]\<rparr>]], outbuf = []\<rparr>
   = Inr ([0, 0, 0, 0, 1, 2, 3, 4],
          \<lparr>inbuf = [], outbuf = [set_pixel_format_msg, set_encodings_msg, update_request_msg 1 1]\<rparr>)
   \<and> length [0, 0, 0, 0, 1, 2, 3, 4 :: byte] \<noteq> 1 * 1 * 4"
  by code_simp

theorem C6_buffer_size_witness:
  "(\<exists>fb t. tool_capture 1 1
        \<lparr>inbuf = [wire_update
          [\<lparr>rect_x = 0, rect_y = 1, rect_w = 1, rect_h = 1, rect_encoding = 0,
              rect_payload = [1, 2, 3, 4]\<rparr>]], outbuf = []\<rparr> = Inr (fb, t)
      \<and> 1 * 1 * 4 \<le> length fb)
   \<and> (\<exists>fb t. tool_capture 2 2
          \<lparr>inbuf = [[2], wire_update
            [\<lparr>rect_x = 1, rect_y = 0, rect_w = 2, rect_h = 1, rect_encoding = 0,
                rect_payload = [1, 2, 3, 4, 5, 6, 7, 8]\<rparr>,
             \<lparr>rect_x = 0, rect_y = 0, rect_w = 1, rect_h = 1, rect_encoding = 7,
                rect_payload = [9, 9]\<rparr>,
             \<lparr>rect_x = 0, rect_y = 5, rect_w = 1, rect_h = 1, rect_encoding = 0,
                rect_payload = [1, 2, 3, 4]\<rparr>]], outbuf = []\<rparr> = Inr (fb, t)
      \<and> length fb = 2 * 2 * 4)
   \<and> (\<exists>fb t. capture_screenshot \<lparr>sess_width = 2, sess_height = 2, sess_name = []\<rparr>
          \<lparr>inbuf = [[2], wire_update
            [\<lparr>rect_x = 1, rect_y = 0, rect_w = 2, rect_h = 1, rect_encoding = 0,
                rect_payload = [1, 2, 3, 4, 5, 6, 7, 8]\<rparr>]], outbuf = []\<rparr> = Inr (fb, t)
      \<and> length fb = 2 * 2 * 4)
   \<and> (\<exists>fb t. capture_screenshot \<lparr>sess_width = 2, sess_height = 2, sess_name = []\<rparr>
          \<lparr>inbuf = [[2], wire_update
            [\<lparr>rect_x = 1, rect_y = 1, rect_w = 2, rect_h = 1, rect_encoding = 0,
                rect_payload = [1, 2, 3, 4, 5, 6, 7, 8]\<rparr>]], outbuf = []\<rparr> = Inr (fb, t)
      \<and> length fb \<noteq> 2 * 2 * 4)"
proof -
  define q where "q = \<lparr>rect_x = 0, rect_y = 1, rect_w = 1, rect_h = 1, rect_encoding = 0,
    rect_payload = [1, 2, 3, 4 :: byte]\<rparr>"
  define r where "r = \<lparr>rect_x = 1, rect_y = 0, rect_w = 2, rect_h = 1, rect_encoding = 0,
    rect_payload = [1, 2, 3, 4, 5, 6, 7, 8 :: byte]\<rparr>"
  define u where "u = \<lparr>rect_x = 0, rect_y = 0, rect_w = 1, rect_h = 1, rect_encoding = 7,
    rect_payload = [9, 9 :: byte]\<rparr>"
  define v where "v = \<lparr>rect_x = 0, rect_y = 5, rect_w = 1, rect_h = 1, rect_encoding = 0,
    rect_payload = [1, 2, 3, 4 :: byte]\<rparr>"
  define x where "x = \<lparr>rect_x = 1, rect_y = 1, rect_w = 2, rect_h = 1, rect_encoding = 0,
    rect_payload = [1, 2, 3, 4, 5, 6, 7, 8 :: byte]\<rparr>"
  have g: "tool_capture 1 1 \<lparr>inbuf = [wire_update [q]], outbuf = []\<rparr>
      = Inr ([0, 0, 0, 0, 1, 2, 3, 4],
          \<lparr>inbuf = [], outbuf = [set_pixel_format_msg, set_encodings_msg, update_request_msg 1 1]\<rparr>)"
    unfolding q_def by code_simp
  have h: "(\<forall>m\<in>set [Bell]. wf_other m) \<and> (\<forall>r\<in>set [r, u, v]. wf_rect r) \<and> length [r, u, v] < 65536
       \<and> concat (inbuf \<lparr>inbuf = [[2], wire_update [r, u, v]], outbuf = []\<rparr>)
           = concat (map wire_other [Bell]) @ wire_update [r, u, v] @ []"
    by (simp add: r_def u_def v_def wf_rect_def is_raw_def)
  have tw: "is_raw r" "\<not> is_raw u"
    by (simp_all add: r_def u_def is_raw_def)
  have fr: "rows_fit 2 (2 * 2 * 4) r" and fx: "\<not> rows_fit 2 (2 * 2 * 4) x"
    by (simp_all add: rows_fit_def r_def x_def)
  have k: "(\<forall>m\<in>set [Bell]. wf_other m) \<and> (\<forall>r\<in>set [y]. wf_rect r \<and> is_raw r) \<and> length [y] < 65536
       \<and> concat (inbuf \<lparr>inbuf = [[2], wire_update [y]], outbuf = []\<rparr>)
           = concat (map wire_other [Bell]) @ wire_update [y] @ []"
    if "y = r \<or> y = x" for y
    using that by (auto simp: r_def x_def wf_rect_def is_raw_def)
  from C6_buffer_size [of 1 1 "\<lparr>inbuf = [wire_update [q]], outbuf = []\<rparr>" "[]" "[]" "[]" "[]"] g
  have 1: "\<exists>fb t. tool_capture 1 1 \<lparr>inbuf = [wire_update [q]], outbuf = []\<rparr> = Inr (fb, t)
      \<and> 1 * 1 * 4 \<le> length fb"
    by blast
  from C6_buffer_size [of 2 2 "\<lparr>inbuf = [[2], wire_update [r, u, v]], outbuf = []\<rparr>" "[]"
      "[Bell]" "[r, u, v]" "[]"] h tw fr
  have 2: "\<exists>fb t. tool_capture 2 2 \<lparr>inbuf = [[2], wire_update [r, u, v]], outbuf = []\<rparr> = Inr (fb, t)
      \<and> length fb = 2 * 2 * 4"
    by simp
  from C6_buffer_size [of 2 2 "\<lparr>inbuf = [[2], wire_update [r]], outbuf = []\<rparr>" "[]"
      "[Bell]" "[r]" "[]"] k [of r] fr
  have 3: "\<exists>fb t. capture_screenshot \<lparr>sess_width = 2, sess_height = 2, sess_name = []\<rparr>
          \<lparr>inbuf = [[2], wire_update [r]], outbuf = []\<rparr> = Inr (fb, t)
      \<and> length fb = 2 * 2 * 4"
    by simp
  from C6_buffer_size [of 2 2 "\<lparr>inbuf = [[2], wire_update [x]], outbuf = []\<rparr>" "[]"
      "[Bell]" "[x]" "[]"] k [of x] fx
  have 4: "\<exists>fb t. capture_screenshot \<lparr>sess_width = 2, sess_height = 2, sess_name = []\<rparr>
          \<lparr>inbuf = [[2], wire_update [x]], outbuf = []\<rparr> = Inr (fb, t)
      \<and> length fb \<noteq> 2 * 2 * 4"
    by simp
  from 1 2 3 4 show ?thesis
    unfolding q_def r_def u_def v_def x_def by blast
qed


subsection \<open>The two receive loops differ\<close>

text \<open>
  C10. The same update as for C2, on a 1x1 display: a rectangle of encoding 1 (a bare
  header), then a Raw rectangle with payload 1, 2, 3, 4. The standalone tool stops at
  the first header, returns the zero buffer and leaves 16 bytes unread; the connection
  class reads on, returns 1, 2, 3, 4 and leaves nothing.
\<close>

theorem C10_capture_divergence:
  "tool_capture 1 1
     \<lparr>inbuf = [wire_update
        [\<lparr>rect_x = 0, rect_y = 0, rect_w = 1, rect_h = 1, rect_encoding = 1, rect_payload = []\<rparr>,
         \<lparr>rect_x = 0, rect_y = 0, rect_w = 1, rect_h = 1, rect_encoding = 0,
            rect_payload = [1, 2, 3, 4]\<rparr>]], outbuf = []\<rparr>
   = Inr ([0, 0, 0, 0],
          \<lparr>inbuf = [[0, 0, 0, 0, 0, 1, 0, 1, 0, 0, 0, 0, 1, 2, 3, 4]],
             outbuf = [set_pixel_format_msg, set_encodings_msg, update_request_msg 1 1]\<rparr>)
   \<and> capture_screenshot \<lparr>sess_width = 1, sess_height = 1, sess_name = []\<rparr>
     \<lparr>inbuf = [wire_update
        [\<lparr>rect_x = 0, rect_y = 0, rect_w = 1, rect_h = 1, rect_encoding = 1, rect_payload = []\<rparr>,
         \<lparr>rect_x = 0, rect_y = 0, rect_w = 1, rect_h = 1, rect_encoding = 0,
            rect_payload = [1, 2, 3, 4]\<rparr>]], outbuf = []\<rparr>
   = Inr ([1, 2, 3, 4],
          \<lparr>inbuf = [], outbuf = [set_pixel_format_msg, set_encodings_msg, update_request_msg 1 1]\<rparr>)"
  by code_simp

subsection \<open>Further properties\<close>

text \<open>
  On an update whose rectangles are all Raw (within the display or not), the two receive
  loops return the same buffer and leave the same bytes on the stream.
\<close>

theorem receive_loops_agree_on_raw:
  assumes ms: "\<forall>m\<in>set ms. wf_other m"
    and rs: "\<forall>r\<in>set rs. wf_rect r \<and> is_raw r"
    and n: "length rs < 65536"
    and s: "concat s = concat (map wire_other ms) @ wire_update rs @ rest"
  shows "\<exists>fb' s1 s2. tool_receive W fb s = Inr (fb', s1) \<and> conn_receive W fb s = Inr (fb', s2)
           \<and> concat s1 = rest \<and> concat s2 = rest \<and> fb' = composite W rs fb"
proof -
  from rs have wf: "\<forall>r\<in>set rs. wf_rect r"
    and wf': "\<forall>r\<in>set rs. wf_rect r \<and> (\<not> is_raw r \<longrightarrow> rect_payload r = [])"
    and raw: "\<forall>r\<in>set rs. is_raw r"
    by simp_all
  from raw have tw: "takeWhile is_raw rs = rs" and fl: "filter is_raw rs = rs"
    and ur: "unread rs = []"
    by (simp_all add: unread_def dropWhile_eq_Nil_conv [THEN iffD2])
  from tool_receive_stream [OF ms wf n s, of W fb] conn_receive_stream [OF ms wf' n s, of W fb]
  show ?thesis
    unfolding tw fl ur by (auto simp del: tool_receive.simps conn_receive.simps)
qed

theorem receive_loops_agree_on_raw_witness:
  "\<exists>fb' s1 s2.
     tool_receive 1 [0, 0, 0, 0]
       [[2, 0], [0, 0, 1, 0, 0, 0, 1, 0, 1, 0, 1, 0, 0, 0, 0, 1, 2, 3, 4, 9]] = Inr (fb', s1)
   \<and> conn_receive 1 [0, 0, 0, 0]
       [[2, 0], [0, 0, 1, 0, 0, 0, 1, 0, 1, 0, 1, 0, 0, 0, 0, 1, 2, 3, 4, 9]] = Inr (fb', s2)
   \<and> concat s1 = [9] \<and> concat s2 = [9]
   \<and> fb' = composite 1
       [\<lparr>rect_x = 0, rect_y = 1, rect_w = 1, rect_h = 1, rect_encoding = 0,
          rect_payload = [1, 2, 3, 4]\<rparr>] [0, 0, 0, 0]"
proof -
  define q where "q = \<lparr>rect_x = 0, rect_y = 1, rect_w = 1, rect_h = 1, rect_encoding = 0,
    rect_payload = [1, 2, 3, 4 :: byte]\<rparr>"
  have ms: "\<forall>m\<in>set [Bell]. wf_other m"
    by simp
  have rs: "\<forall>r\<in>set [q]. wf_rect r \<and> is_raw r"
    by (simp add: q_def wf_rect_def is_raw_def)
  have n: "length [q] < 65536"
    by simp
  have s: "concat [[2, 0], [0, 0, 1, 0, 0, 0, 1, 0, 1, 0, 1, 0, 0, 0, 0, 1, 2, 3, 4, 9]]
      = concat (map wire_other [Bell]) @ wire_update [q] @ [9]"
    by (simp add: q_def wire_update_def wire_rect_def wire_header_def pack_H_def pack_i_def
        pack_I_def)
  from receive_loops_agree_on_raw [OF ms rs n s, of 1 "[0, 0, 0, 0]"] show ?thesis
    unfolding q_def .
qed

text \<open>
  \<open>recv_exact(n)\<close> returns exactly the next \<open>n\<close> bytes of the stream, however the
  transport segments them, and raises \<open>Connection closed\<close> when the stream ends before
  \<open>n\<close> bytes have arrived.
\<close>

theorem recv_exact_complete_or_closed:
  "(length (concat s) < n \<longrightarrow> recv_exact n s = Inl ConnectionClosed)
   \<and> (n \<le> length (concat s) \<longrightarrow>
        (\<exists>s'. recv_exact n s = Inr (take n (concat s), s') \<and> concat s' = drop n (concat s)))"
proof (intro conjI impI)
  assume "length (concat s) < n"
  then show "recv_exact n s = Inl ConnectionClosed"
    by (rule recv_exact_short)
next
  assume "n \<le> length (concat s)"
  then have "length (take n (concat s)) = n"
    by simp
  with recv_exact_n [of s "take n (concat s)" "drop n (concat s)" n]
  show "\<exists>s'. recv_exact n s = Inr (take n (concat s), s') \<and> concat s' = drop n (concat s)"
    by simp
qed

theorem recv_exact_complete_or_closed_witness:
  "recv_exact 4 [[1], [2, 3]] = Inl ConnectionClosed
   \<and> (\<exists>s'. recv_exact 4 [[1], [2, 3], [4, 5]] = Inr ([1, 2, 3, 4], s') \<and> concat s' = [5])"
  using recv_exact_complete_or_closed [of "[[1], [2, 3]]" 4]
    recv_exact_complete_or_closed [of "[[1], [2, 3], [4, 5]]" 4]
  by simp

end
